theory Spec2Isabelle
  imports Complex_Main
begin

section \<open>The shortest-path engine of src/src/dijkstra.cxx\<close>

subsection \<open>The values of \<open>float\<close>\<close>

text \<open>
  The class template \<open>Dijkstra\<close> is instantiated by the driver at \<open>T = float\<close>, and its
  code uses the float infinity of \<open>numeric_limits\<close> as the sentinel of an unreached vertex. A
  value of \<open>T\<close> is an IEEE 754 binary32 value: a finite number \<open>Fin x\<close>, \<open>+infinity\<close>,
  \<open>-infinity\<close> or a NaN. The finite values are the reals \<open>m * 2^e\<close> with \<open>|m| < 2^24\<close> and
  \<open>-149 \<le> e \<le> 104\<close>; the two zeros are one value, which the code cannot tell apart (it
  compares and adds, and converts to \<open>bool\<close>). An entry \<open>Fin x\<close> of a matrix that the code
  receives has a float \<open>x\<close>; the sums that the code stores are floats by \<open>to_float\<close>.
\<close>

datatype cost = Fin real | PInf | NInf | NaN

text \<open>
  Rounding to nearest, ties to even, as the addition of two floats rounds its exact sum
  (the default rounding mode; sums are evaluated in \<open>float\<close>). \<open>ulp_exponent x\<close> is the
  exponent \<open>e\<close> of the spacing \<open>2^e\<close> of the floats around \<open>x\<close>: the least \<open>e\<close> from -149 with
  \<open>|x| < 2^(e + 24)\<close>, and 104 from \<open>2^128\<close> on. \<open>round_to_grid x\<close> is the multiple of that
  spacing nearest to \<open>x\<close>, the even multiple of two equally near. A result of magnitude
  \<open>2^128\<close> or more overflows to an infinity.
\<close>

definition round_half_even :: "real \<Rightarrow> int" where
  "round_half_even x =
     (let f = \<lfloor>x\<rfloor>; r = x - of_int f
      in if r < 1 / 2 then f else if 1 / 2 < r then f + 1 else if even f then f else f + 1)"

definition float_exponents :: "int list" where
  "float_exponents = [- 149..104]"

definition ulp_exponent :: "real \<Rightarrow> int" where
  "ulp_exponent x =
     (case find (\<lambda>e. \<bar>x\<bar> < 2 powi (e + 24)) float_exponents of Some e \<Rightarrow> e | None \<Rightarrow> 104)"

definition round_to_grid :: "real \<Rightarrow> real" where
  "round_to_grid x = of_int (round_half_even (x / 2 powi ulp_exponent x)) * 2 powi ulp_exponent x"

definition to_float :: "real \<Rightarrow> cost" where
  "to_float x =
     (let y = round_to_grid x
      in if 2 ^ 128 \<le> y then PInf else if y \<le> - (2 ^ 128) then NInf else Fin y)"

text \<open>
  \<open>a + b\<close>, \<open>a < b\<close> and \<open>a <= b\<close> on floats: the sum of two finite floats is their
  exact sum rounded, the sum of \<open>+infinity\<close> and \<open>-infinity\<close> is a NaN, and a NaN makes a
  sum a NaN and a comparison false.
\<close>

fun add :: "cost \<Rightarrow> cost \<Rightarrow> cost" where
  "add (Fin a) (Fin b) = to_float (a + b)"
| "add (Fin a) PInf = PInf"
| "add (Fin a) NInf = NInf"
| "add (Fin a) NaN = NaN"
| "add PInf (Fin b) = PInf"
| "add PInf PInf = PInf"
| "add PInf NInf = NaN"
| "add PInf NaN = NaN"
| "add NInf (Fin b) = NInf"
| "add NInf PInf = NaN"
| "add NInf NInf = NInf"
| "add NInf NaN = NaN"
| "add NaN b = NaN"

fun lt :: "cost \<Rightarrow> cost \<Rightarrow> bool" where
  "lt (Fin a) (Fin b) = (a < b)"
| "lt (Fin a) PInf = True"
| "lt (Fin a) NInf = False"
| "lt (Fin a) NaN = False"
| "lt PInf b = False"
| "lt NInf (Fin b) = True"
| "lt NInf PInf = True"
| "lt NInf NInf = False"
| "lt NInf NaN = False"
| "lt NaN b = False"

fun le :: "cost \<Rightarrow> cost \<Rightarrow> bool" where
  "le (Fin a) (Fin b) = (a \<le> b)"
| "le (Fin a) PInf = True"
| "le (Fin a) NInf = False"
| "le (Fin a) NaN = False"
| "le PInf (Fin b) = False"
| "le PInf PInf = True"
| "le PInf NInf = False"
| "le PInf NaN = False"
| "le NInf (Fin b) = True"
| "le NInf PInf = True"
| "le NInf NInf = True"
| "le NInf NaN = False"
| "le NaN b = False"

subsection \<open>Outcomes, vectors and loops\<close>

text \<open>
  The outcome of a call. The source has no \<open>throw\<close> and no check of an index: what it can
  do besides returning is undefined behaviour, by \<open>vector::operator[]\<close> outside the vector
  (\<open>Undefined\<close>) or by reading the local \<open>min_index\<close> that no iteration assigned
  (\<open>Undefined\<close> as well). \<open>InvalidGraph\<close> and \<open>OutOfRange\<close> are the two conditions of the
  specification's error taxonomy; they are here so that a statement can name them, and no
  function below produces them, since no statement of the source raises them.
\<close>

datatype fault = InvalidGraph | OutOfRange | Undefined

definition and_then :: "fault + 'a \<Rightarrow> ('a \<Rightarrow> fault + 'b) \<Rightarrow> fault + 'b" where
  "and_then r f = (case r of Inl e \<Rightarrow> Inl e | Inr x \<Rightarrow> f x)"

text \<open>\<open>xs[i]\<close> read and \<open>xs[i] = x\<close> on a \<open>std::vector\<close>: unchecked, undefined outside.\<close>

definition vec_get :: "'a list \<Rightarrow> int \<Rightarrow> fault + 'a" where
  "vec_get xs i = (if 0 \<le> i \<and> i < int (length xs) then Inr (xs ! nat i) else Inl Undefined)"

definition vec_put :: "'a list \<Rightarrow> int \<Rightarrow> 'a \<Rightarrow> fault + 'a list" where
  "vec_put xs i x = (if 0 \<le> i \<and> i < int (length xs) then Inr (xs[nat i := x]) else Inl Undefined)"

text \<open>
  \<open>for (int i = 0; i < n; i++) body\<close>, where the body neither assigns \<open>i\<close> nor leaves the
  loop: \<open>for_range n body s\<close> is the state after the iterations \<open>0, ..., n - 1\<close> from the
  state \<open>s\<close>, that is the iterations \<open>0, ..., n - 2\<close> followed by iteration \<open>n - 1\<close>. An
  iteration that is undefined ends the run.
\<close>

primrec for_range :: "nat \<Rightarrow> (int \<Rightarrow> 's \<Rightarrow> fault + 's) \<Rightarrow> 's \<Rightarrow> fault + 's" where
  "for_range 0 body s = Inr s"
| "for_range (Suc n) body s = and_then (for_range n body s) (body (int n))"

subsection \<open>The class\<close>

text \<open>
  The object: the members \<open>size\<close> (an int) and \<open>graph\<close> (a vector of rows). The
  constructor copies the matrix and takes its row count; it has no other statement. (The row
  count is taken as an \<open>int\<close> without wrap-around: a matrix has fewer than \<open>2^31\<close> rows.)
\<close>

record engine =
  size_d :: int
  graph_d :: "cost list list"

definition Dijkstra :: "cost list list \<Rightarrow> engine" where
  "Dijkstra g = \<lparr>size_d = int (length g), graph_d = g\<rparr>"

text \<open>
  \<open>min_distance\<close>: the locals are \<open>min\<close>, starting at infinity, and \<open>min_index\<close>, which has
  no initial value (\<open>None\<close>); returning it unassigned is undefined. One iteration, with the
  short-circuit order of the condition, is \<open>min_step\<close>. (The vector \<open>dist\<close> of the source is
  written \<open>dists\<close> throughout: \<open>dist\<close> is a constant of the library.)
\<close>

definition min_step :: "cost list \<Rightarrow> bool list \<Rightarrow> int \<Rightarrow> cost \<times> int option \<Rightarrow> fault + cost \<times> int option" where
  "min_step dists is_processed v st =
     and_then (vec_get is_processed v) (\<lambda>p.
       if p = False then
         and_then (vec_get dists v) (\<lambda>d.
           if le d (fst st) then Inr (d, Some v) else Inr st)
       else Inr st)"

definition min_distance :: "engine \<Rightarrow> cost list \<Rightarrow> bool list \<Rightarrow> fault + int" where
  "min_distance e dists is_processed =
     and_then (for_range (nat (size_d e)) (min_step dists is_processed) (PInf, None)) (\<lambda>st.
       case snd st of None \<Rightarrow> Inl Undefined | Some min_index \<Rightarrow> Inr min_index)"

text \<open>
  \<open>from_vertex\<close>. The first loop appends one infinity and one \<open>false\<close> per vertex; then
  \<open>dist[source] = 0\<close>, unchecked.
\<close>

definition init_step :: "int \<Rightarrow> cost list \<times> bool list \<Rightarrow> fault + cost list \<times> bool list" where
  "init_step i st = Inr (fst st @ [PInf], snd st @ [False])"

definition start :: "engine \<Rightarrow> int \<Rightarrow> fault + cost list \<times> bool list" where
  "start e source =
     and_then (for_range (nat (size_d e)) init_step ([], [])) (\<lambda>st.
       and_then (vec_put (fst st) source (Fin 0)) (\<lambda>dists. Inr (dists, snd st)))"

text \<open>
  The relaxation of one \<open>v\<close> from the selected \<open>u\<close>: the four conjuncts of the condition
  are evaluated left to right, and a conjunct is read only when those before it hold. A
  matrix entry converts to \<open>true\<close> when it is not zero (an infinity and a NaN are not zero),
  and \<open>dist[u] != infinity\<close> holds of everything but \<open>+infinity\<close>.
\<close>

definition relax_step :: "engine \<Rightarrow> int \<Rightarrow> bool list \<Rightarrow> int \<Rightarrow> cost list \<Rightarrow> fault + cost list" where
  "relax_step e u is_processed v dists =
     and_then (vec_get is_processed v) (\<lambda>p.
       if p then Inr dists else
       and_then (vec_get (graph_d e) u) (\<lambda>row.
       and_then (vec_get row v) (\<lambda>g.
         if g = Fin 0 then Inr dists else
         and_then (vec_get dists u) (\<lambda>du.
           if du = PInf then Inr dists else
           and_then (vec_get dists v) (\<lambda>dv.
             if lt (add du g) dv then vec_put dists v (add du g) else Inr dists)))))"

text \<open>One iteration of the main loop: select, mark, relax every \<open>v\<close>.\<close>

definition main_step :: "engine \<Rightarrow> int \<Rightarrow> cost list \<times> bool list \<Rightarrow> fault + cost list \<times> bool list" where
  "main_step e count st =
     and_then (min_distance e (fst st) (snd st)) (\<lambda>u.
     and_then (vec_put (snd st) u True) (\<lambda>is_processed.
     and_then (for_range (nat (size_d e)) (relax_step e u is_processed) (fst st)) (\<lambda>dists.
       Inr (dists, is_processed))))"

text \<open>
  \<open>after_iterations e source k\<close> are the two vectors after the initialisation and the first
  \<open>k\<close> iterations of the main loop. The loop runs while \<open>count < size - 1\<close>, which is
  \<open>main_loop_count\<close> iterations (none when \<open>size\<close> is 0 or 1); \<open>from_vertex_locals\<close> are the
  two vectors at the \<open>return\<close>, and \<open>from_vertex\<close> returns \<open>dist\<close>.
\<close>

definition after_iterations :: "engine \<Rightarrow> int \<Rightarrow> nat \<Rightarrow> fault + cost list \<times> bool list" where
  "after_iterations e source k = and_then (start e source) (for_range k (main_step e))"

definition main_loop_count :: "engine \<Rightarrow> nat" where
  "main_loop_count e = nat (size_d e - 1)"

definition from_vertex_locals :: "engine \<Rightarrow> int \<Rightarrow> fault + cost list \<times> bool list" where
  "from_vertex_locals e source = after_iterations e source (main_loop_count e)"

definition from_vertex :: "engine \<Rightarrow> int \<Rightarrow> fault + cost list" where
  "from_vertex e source = and_then (from_vertex_locals e source) (\<lambda>st. Inr (fst st))"

subsection \<open>The same methods with the object made explicit\<close>

text \<open>
  \<open>from_vertex\<close> and \<open>min_distance\<close> are not \<open>const\<close>: they could assign \<open>size\<close> or
  \<open>graph\<close>. Here every statement takes the object next to the locals and gives it back,
  so that an assignment to a member would show in the object that \<open>from_vertex_obj\<close> returns
  with the vector; a member is read from the object as the statements before have left it.
  (The bound of a loop is read where the loop is entered.)
\<close>

definition min_step_obj ::
  "cost list \<Rightarrow> bool list \<Rightarrow> int \<Rightarrow> (cost \<times> int option) \<times> engine \<Rightarrow> fault + (cost \<times> int option) \<times> engine" where
  "min_step_obj dists is_processed v st =
     and_then (vec_get is_processed v) (\<lambda>p.
       if p = False then
         and_then (vec_get dists v) (\<lambda>d.
           if le d (fst (fst st)) then Inr ((d, Some v), snd st) else Inr st)
       else Inr st)"

definition min_distance_obj :: "cost list \<Rightarrow> bool list \<Rightarrow> engine \<Rightarrow> fault + int \<times> engine" where
  "min_distance_obj dists is_processed this =
     and_then (for_range (nat (size_d this)) (min_step_obj dists is_processed) ((PInf, None), this)) (\<lambda>st.
       case snd (fst st) of None \<Rightarrow> Inl Undefined | Some min_index \<Rightarrow> Inr (min_index, snd st))"

definition init_step_obj ::
  "int \<Rightarrow> (cost list \<times> bool list) \<times> engine \<Rightarrow> fault + (cost list \<times> bool list) \<times> engine" where
  "init_step_obj i st = Inr ((fst (fst st) @ [PInf], snd (fst st) @ [False]), snd st)"

definition relax_step_obj :: "int \<Rightarrow> bool list \<Rightarrow> int \<Rightarrow> cost list \<times> engine \<Rightarrow> fault + cost list \<times> engine" where
  "relax_step_obj u is_processed v st =
     and_then (vec_get is_processed v) (\<lambda>p.
       if p then Inr st else
       and_then (vec_get (graph_d (snd st)) u) (\<lambda>row.
       and_then (vec_get row v) (\<lambda>g.
         if g = Fin 0 then Inr st else
         and_then (vec_get (fst st) u) (\<lambda>du.
           if du = PInf then Inr st else
           and_then (vec_get (fst st) v) (\<lambda>dv.
             if lt (add du g) dv
             then and_then (vec_put (fst st) v (add du g)) (\<lambda>dists. Inr (dists, snd st))
             else Inr st)))))"

definition main_step_obj ::
  "int \<Rightarrow> (cost list \<times> bool list) \<times> engine \<Rightarrow> fault + (cost list \<times> bool list) \<times> engine" where
  "main_step_obj count st =
     and_then (min_distance_obj (fst (fst st)) (snd (fst st)) (snd st)) (\<lambda>r.
     and_then (vec_put (snd (fst st)) (fst r) True) (\<lambda>is_processed.
     and_then (for_range (nat (size_d (snd r))) (relax_step_obj (fst r) is_processed)
                 (fst (fst st), snd r)) (\<lambda>st'.
       Inr ((fst st', is_processed), snd st'))))"

definition from_vertex_obj :: "int \<Rightarrow> engine \<Rightarrow> fault + cost list \<times> engine" where
  "from_vertex_obj source this =
     and_then (for_range (nat (size_d this)) init_step_obj (([], []), this)) (\<lambda>st.
     and_then (vec_put (fst (fst st)) source (Fin 0)) (\<lambda>dists.
     and_then (for_range (nat (size_d (snd st) - 1)) main_step_obj ((dists, snd (fst st)), snd st)) (\<lambda>st'.
       Inr (fst (fst st'), snd st'))))"

subsection \<open>The inputs of the repository\<close>

text \<open>The matrix of \<open>main\<close>.\<close>

definition main_graph :: "cost list list" where
  "main_graph =
     [[Fin 0, PInf, Fin (- 2), PInf],
      [Fin 4, Fin 0, Fin 3, PInf],
      [PInf, PInf, Fin 0, Fin 2],
      [PInf, Fin (- 1), PInf, Fin 0]]"

section \<open>The vocabulary of the specification\<close>

text \<open>A matrix is square when every row is as long as the matrix has rows.\<close>

definition square :: "cost list list \<Rightarrow> bool" where
  "square g = list_all (\<lambda>row. length row = length g) g"

definition non_negative :: "cost list list \<Rightarrow> bool" where
  "non_negative g = list_all (list_all (le (Fin 0))) g"

text \<open>
  A path from \<open>u\<close> is the list of the vertices visited after \<open>u\<close>; each step follows a matrix
  entry that is not zero, and the path ends at its last vertex (at \<open>u\<close> when it is empty).
\<close>

fun is_path :: "cost list list \<Rightarrow> nat \<Rightarrow> nat list \<Rightarrow> bool" where
  "is_path g u [] = True"
| "is_path g u (v # vs) = (v < length g \<and> g ! u ! v \<noteq> Fin 0 \<and> is_path g v vs)"

fun path_end :: "nat \<Rightarrow> nat list \<Rightarrow> nat" where
  "path_end u [] = u"
| "path_end u (v # vs) = path_end v vs"

text \<open>
  The weight of a path as a program of type \<open>float\<close> sums it: from 0 at the start, each
  entry followed is added to the sum so far, and each sum is rounded.
\<close>

fun accumulate :: "cost list list \<Rightarrow> cost \<Rightarrow> nat \<Rightarrow> nat list \<Rightarrow> cost" where
  "accumulate g acc u [] = acc"
| "accumulate g acc u (v # vs) = accumulate g (add acc (g ! u ! v)) v vs"

definition path_weight :: "cost list list \<Rightarrow> nat \<Rightarrow> nat list \<Rightarrow> cost" where
  "path_weight g u p = accumulate g (Fin 0) u p"

text \<open>
  The weight of a path as the sum of the entries followed, in the words of the specification:
  the sum of real numbers, not rounded, and infinite when an entry is.
\<close>

fun exact_add :: "cost \<Rightarrow> cost \<Rightarrow> cost" where
  "exact_add (Fin a) (Fin b) = Fin (a + b)"
| "exact_add (Fin a) PInf = PInf"
| "exact_add (Fin a) NInf = NInf"
| "exact_add (Fin a) NaN = NaN"
| "exact_add PInf (Fin b) = PInf"
| "exact_add PInf PInf = PInf"
| "exact_add PInf NInf = NaN"
| "exact_add PInf NaN = NaN"
| "exact_add NInf (Fin b) = NInf"
| "exact_add NInf PInf = NaN"
| "exact_add NInf NInf = NInf"
| "exact_add NInf NaN = NaN"
| "exact_add NaN b = NaN"

fun exact_weight :: "cost list list \<Rightarrow> nat \<Rightarrow> nat list \<Rightarrow> cost" where
  "exact_weight g u [] = Fin 0"
| "exact_weight g u (v # vs) = exact_add (g ! u ! v) (exact_weight g v vs)"

text \<open>The number of vertices marked processed.\<close>

definition processed_count :: "bool list \<Rightarrow> nat" where
  "processed_count is_processed = length (filter (\<lambda>p. p) is_processed)"

text \<open>
  The selection rule in the words of the specification: scan the vertices \<open>0, ..., n - 1\<close> in
  increasing order and replace the best so far whenever an unprocessed candidate's distance is
  less than or equal to the current minimum, which starts at infinity with no vertex.
\<close>

definition scan_select :: "cost list \<Rightarrow> bool list \<Rightarrow> nat \<Rightarrow> cost \<times> nat option" where
  "scan_select dists is_processed n =
     fold (\<lambda>v best. if \<not> is_processed ! v \<and> le (dists ! v) (fst best) then (dists ! v, Some v) else best)
       [0..<n] (PInf, None)"

section \<open>Loop invariants\<close>

text \<open>
  What holds of the two vectors after \<open>k\<close> iterations of the main loop from the source \<open>s\<close>,
  whatever the entries of the matrix: the lengths, the number of processed vertices, the
  source's distance, that the source is processed from the first iteration on, that nothing
  but the source has a finite distance before it, that no distance is a NaN, and that every
  distance but \<open>+infinity\<close> is the weight of a path.
\<close>

definition basic_inv :: "cost list list \<Rightarrow> nat \<Rightarrow> nat \<Rightarrow> cost list \<times> bool list \<Rightarrow> bool" where
  "basic_inv g s k st =
     (length (fst st) = length g \<and> length (snd st) = length g \<and>
      processed_count (snd st) = k \<and> fst st ! s = Fin 0 \<and> (0 < k \<longrightarrow> snd st ! s) \<and>
      (\<not> snd st ! s \<longrightarrow> (\<forall>v<length g. v \<noteq> s \<longrightarrow> fst st ! v = PInf)) \<and>
      (\<forall>v<length g. fst st ! v \<noteq> NaN) \<and>
      (\<forall>v<length g. fst st ! v = PInf \<or>
         (\<exists>p. is_path g s p \<and> path_end s p = v \<and> path_weight g s p = fst st ! v)))"

text \<open>
  A distance under non-negative entries: \<open>+infinity\<close>, or a float that is not negative.
\<close>

definition distance_value :: "cost \<Rightarrow> bool" where
  "distance_value c = (c = PInf \<or> (\<exists>a. c = Fin a \<and> 0 \<le> a \<and> to_float a = Fin a))"

text \<open>
  What non-negative entries add: no entry out of a processed vertex can improve a distance,
  and no processed vertex is farther than an unprocessed one.
\<close>

definition dijkstra_inv :: "cost list list \<Rightarrow> cost list \<times> bool list \<Rightarrow> bool" where
  "dijkstra_inv g st =
     ((\<forall>v<length g. distance_value (fst st ! v)) \<and>
      (\<forall>u<length g. snd st ! u \<longrightarrow>
         (\<forall>v<length g. g ! u ! v \<noteq> Fin 0 \<longrightarrow> le (fst st ! v) (add (fst st ! u) (g ! u ! v)))) \<and>
      (\<forall>u<length g. snd st ! u \<longrightarrow>
         (\<forall>v<length g. \<not> snd st ! v \<longrightarrow> le (fst st ! u) (fst st ! v))))"

section \<open>Example inputs\<close>

text \<open>
  Three vertices: the entry from 0 to 1 costs 7, the detour over 2 costs 2 + 3; and three
  vertices where only the entry from 0 to 1 is not zero, so that nothing leads to vertex 2.
\<close>

definition detour_graph :: "cost list list" where
  "detour_graph = [[Fin 0, Fin 7, Fin 2], [Fin 0, Fin 0, Fin 0], [Fin 0, Fin 3, Fin 0]]"

definition cut_graph :: "cost list list" where
  "cut_graph = [[Fin 0, Fin 5, Fin 0], [Fin 0, Fin 0, Fin 0], [Fin 0, Fin 0, Fin 0]]"

text \<open>
  Two chains 0, 1, 2 of floats: \<open>2^24 + 1\<close> is not a float and rounds to \<open>2^24\<close>, and
  \<open>2^127 + 2^127\<close> is beyond the largest float.
\<close>

definition rounding_graph :: "cost list list" where
  "rounding_graph = [[Fin 0, Fin 16777216, Fin 0], [Fin 0, Fin 0, Fin 1], [Fin 0, Fin 0, Fin 0]]"

definition overflow_graph :: "cost list list" where
  "overflow_graph = [[Fin 0, Fin (2 ^ 127), Fin 0], [Fin 0, Fin 0, Fin (2 ^ 127)], [Fin 0, Fin 0, Fin 0]]"

section \<open>Lemmas\<close>

subsection \<open>Rounding to a float\<close>

lemma rhe_int: "round_half_even (of_int m) = m"
  by (simp add: round_half_even_def)

lemma rhe_bounds: "\<lfloor>x\<rfloor> \<le> round_half_even x" "round_half_even x \<le> \<lfloor>x\<rfloor> + 1"
  by (simp_all add: round_half_even_def Let_def)

lemma rhe_mono: assumes "x \<le> y" shows "round_half_even x \<le> round_half_even y"
proof (cases "\<lfloor>x\<rfloor> < \<lfloor>y\<rfloor>")
  case True
  then show ?thesis using rhe_bounds(2)[of x] rhe_bounds(1)[of y] by linarith
next
  case False
  then have eq: "\<lfloor>x\<rfloor> = \<lfloor>y\<rfloor>" using floor_mono[OF assms] by linarith
  then have "x - of_int \<lfloor>x\<rfloor> \<le> y - of_int \<lfloor>y\<rfloor>" using assms by simp
  then show ?thesis using eq by (auto simp add: round_half_even_def Let_def)
qed

lemma upto_find_Some:
  assumes "find P [a..b] = Some e"
  shows "a \<le> e" "e \<le> b" "P e" "\<And>d. a \<le> d \<Longrightarrow> d < e \<Longrightarrow> \<not> P d"
proof -
  from assms obtain i where i: "i < length [a..b]" "P ([a..b] ! i)" "e = [a..b] ! i"
    "\<forall>j<i. \<not> P ([a..b] ! j)" unfolding find_Some_iff by blast
  from i(1) have ib: "a + int i \<le> b" by simp
  then have e: "e = a + int i" using i(3) by (simp add: nth_upto)
  show "a \<le> e" "e \<le> b" using e ib by simp_all
  show "P e" using i(2,3) by simp
  fix d assume d: "a \<le> d" "d < e"
  define j where "j = nat (d - a)"
  have j: "j < i" "d = a + int j" using d e by (simp_all add: j_def)
  then have "a + int j \<le> b" using ib by simp
  then have "[a..b] ! j = d" using j(2) by (simp add: nth_upto)
  with i(4) j(1) show "\<not> P d" by auto
qed

lemma upto_find_None:
  assumes "find P [a..b] = None" "a \<le> d" "d \<le> b"
  shows "\<not> P d"
  using assms by (auto simp add: find_None_iff)

lemma ulp_exponent_cases:
  obtains (none) "ulp_exponent x = 104" "\<And>d. - 149 \<le> d \<Longrightarrow> d \<le> 104 \<Longrightarrow> \<not> \<bar>x\<bar> < 2 powi (d + 24)"
  | (some) "- 149 \<le> ulp_exponent x" "ulp_exponent x \<le> 104" "\<bar>x\<bar> < 2 powi (ulp_exponent x + 24)"
      "\<And>d. - 149 \<le> d \<Longrightarrow> d < ulp_exponent x \<Longrightarrow> \<not> \<bar>x\<bar> < 2 powi (d + 24)"
proof (cases "find (\<lambda>e. \<bar>x\<bar> < 2 powi (e + 24)) [- 149..104]")
  case None
  have "ulp_exponent x = 104" using None by (simp only: ulp_exponent_def float_exponents_def option.case)
  moreover have "\<And>d. - 149 \<le> d \<Longrightarrow> d \<le> 104 \<Longrightarrow> \<not> \<bar>x\<bar> < 2 powi (d + 24)"
    using upto_find_None[OF None] .
  ultimately show ?thesis by (rule none)
next
  case (Some e)
  have e: "ulp_exponent x = e" using Some by (simp only: ulp_exponent_def float_exponents_def option.case)
  show ?thesis
    using upto_find_Some[OF Some] unfolding e[symmetric] by (rule some)
qed

lemma ulp_exponent_range: "- 149 \<le> ulp_exponent x" "ulp_exponent x \<le> 104"
  by (cases x rule: ulp_exponent_cases; simp)+

lemma ulp_exponent_upper:
  assumes "\<bar>x\<bar> < 2 powi 128"
  shows "\<bar>x\<bar> < 2 powi (ulp_exponent x + 24)"
proof (cases x rule: ulp_exponent_cases)
  case none
  from none(2)[of 104] assms show ?thesis by simp
next
  case some
  then show ?thesis by simp
qed

lemma ulp_exponent_lower:
  assumes "- 149 < ulp_exponent x"
  shows "2 powi (ulp_exponent x + 23) \<le> \<bar>x\<bar>"
proof -
  have "\<not> \<bar>x\<bar> < 2 powi (ulp_exponent x - 1 + 24)"
  proof (cases x rule: ulp_exponent_cases)
    case none
    from none(2)[of 103] none(1) show ?thesis by simp
  next
    case some
    from some(4)[of "ulp_exponent x - 1"] assms show ?thesis by simp
  qed
  then show ?thesis by (simp add: algebra_simps)
qed

lemma ulp_exponent_least:
  assumes "- 149 \<le> e" "e \<le> 104" "\<bar>x\<bar> < 2 powi (e + 24)"
  shows "ulp_exponent x \<le> e"
proof (cases x rule: ulp_exponent_cases)
  case none
  from none(2)[OF assms(1,2)] assms(3) show ?thesis by simp
next
  case some
  show ?thesis
  proof (rule ccontr)
    assume "\<not> ulp_exponent x \<le> e"
    then have "e < ulp_exponent x" by simp
    from some(4)[OF assms(1) this] assms(3) show False by simp
  qed
qed

lemma ulp_exponent_eq:
  assumes "- 149 \<le> e" "e \<le> 104" "\<bar>x\<bar> < 2 powi (e + 24)" "e = - 149 \<or> 2 powi (e + 23) \<le> \<bar>x\<bar>"
  shows "ulp_exponent x = e"
proof (rule ccontr)
  assume ne: "ulp_exponent x \<noteq> e"
  with ulp_exponent_least[OF assms(1-3)] have lt: "ulp_exponent x < e" by simp
  with ulp_exponent_range(1)[of x] assms(4) have low: "2 powi (e + 23) \<le> \<bar>x\<bar>" by auto
  have "(2::real) powi (e + 24) \<le> 2 powi 128" using assms(2) by (intro power_int_increasing) auto
  with assms(3) have "\<bar>x\<bar> < 2 powi 128" by simp
  from ulp_exponent_upper[OF this] have "\<bar>x\<bar> < 2 powi (ulp_exponent x + 24)" .
  also have "(2::real) powi (ulp_exponent x + 24) \<le> 2 powi (e + 23)"
    using lt by (intro power_int_increasing) auto
  finally show False using low by simp
qed

lemma ulp_exponent_top:
  assumes "2 powi 128 \<le> \<bar>x\<bar>"
  shows "ulp_exponent x = 104"
proof (cases x rule: ulp_exponent_cases)
  case none
  then show ?thesis by simp
next
  case some
  have "(2::real) powi (ulp_exponent x + 24) \<le> 2 powi 128"
    using some(2) by (intro power_int_increasing) auto
  with some(3) assms show ?thesis by simp
qed

lemma to_float_alt:
  "to_float x = (if 2 ^ 128 \<le> round_to_grid x then PInf
                 else if round_to_grid x \<le> - (2 ^ 128) then NInf else Fin (round_to_grid x))"
  by (simp add: to_float_def Let_def)

lemma pow2_pos: "0 < (2::real) powi e" by (simp add: zero_less_power_int)

lemma grid_value:
  assumes "x = of_int m * 2 powi d" "e \<le> d"
  shows "round_half_even (x / 2 powi e) = m * 2 ^ nat (d - e)"
proof -
  have "(2::real) powi d = 2 powi (d - e) * 2 powi e"
    by (simp add: power_int_add[symmetric])
  then have "x / 2 powi e = of_int m * 2 powi (d - e)"
    using assms(1) pow2_pos[of e] by simp
  also have "(2::real) powi (d - e) = 2 ^ nat (d - e)"
    using assms(2) by (simp add: power_int_def)
  finally have "x / 2 powi e = of_int (m * 2 ^ nat (d - e))" by simp
  then show ?thesis by (simp only: rhe_int)
qed

lemma to_float_on_grid:
  assumes le: "ulp_exponent (real_of_int m * 2 powi d) \<le> d"
    and x: "\<bar>real_of_int m * 2 powi d\<bar> < 2 ^ 128"
  shows "to_float (real_of_int m * 2 powi d) = Fin (real_of_int m * 2 powi d)"
proof -
  let ?x = "of_int m * (2::real) powi d"
  have "round_half_even (?x / 2 powi (ulp_exponent ?x)) = m * 2 ^ nat (d - ulp_exponent ?x)"
    using le by (intro grid_value) simp_all
  then have "real_of_int (round_half_even (?x / 2 powi (ulp_exponent ?x))) * 2 powi (ulp_exponent ?x) =
      of_int m * ((2::real) ^ nat (d - ulp_exponent ?x) * 2 powi (ulp_exponent ?x))" by simp
  also have "(2::real) ^ nat (d - ulp_exponent ?x) * 2 powi (ulp_exponent ?x) = 2 powi d"
  proof -
    have "(2::real) ^ nat (d - ulp_exponent ?x) = 2 powi (d - ulp_exponent ?x)"
      using le by (simp add: power_int_def)
    then show ?thesis by (simp add: power_int_add[symmetric])
  qed
  finally have y: "real_of_int (round_half_even (?x / 2 powi (ulp_exponent ?x))) * 2 powi (ulp_exponent ?x) = ?x" .
  from x have "\<not> 2 ^ 128 \<le> ?x" "\<not> ?x \<le> - (2 ^ 128)" by linarith+
  then show ?thesis unfolding to_float_alt round_to_grid_def y by simp
qed

lemma to_float_grid_lt:
  assumes d: "- 149 \<le> d" and m: "\<bar>real_of_int m\<bar> < 2 ^ 24"
    and x: "\<bar>real_of_int m * 2 powi d\<bar> < 2 ^ 128"
  shows "to_float (real_of_int m * 2 powi d) = Fin (real_of_int m * 2 powi d)"
proof -
  let ?x = "of_int m * (2::real) powi d"
  have "ulp_exponent ?x \<le> d"
  proof (cases "d \<le> 104")
    case True
    have "\<bar>?x\<bar> < 2 powi (d + 24)"
      using m pow2_pos[of d] by (simp add: power_int_add abs_mult)
    with d True show ?thesis by (rule ulp_exponent_least)
  next
    case False
    then show ?thesis using ulp_exponent_range(2)[of ?x] by simp
  qed
  then show ?thesis using x by (rule to_float_on_grid)
qed

lemma to_float_grid:
  assumes d: "- 149 \<le> d" and m: "\<bar>real_of_int m\<bar> \<le> 2 ^ 24"
    and x: "\<bar>real_of_int m * 2 powi d\<bar> < 2 ^ 128"
  shows "to_float (real_of_int m * 2 powi d) = Fin (real_of_int m * 2 powi d)"
proof (cases "\<bar>real_of_int m\<bar> < 2 ^ 24")
  case True
  with d show ?thesis using x by (rule to_float_grid_lt)
next
  case False
  with m have "\<bar>real_of_int m\<bar> = 2 ^ 24" by simp
  then have "real_of_int \<bar>m\<bar> = real_of_int (2 ^ 24)" by simp
  then have "\<bar>m\<bar> = 2 ^ 24" by (simp only: of_int_eq_iff)
  then have "m = 16777216 \<or> m = - 16777216" by auto
  then have mm: "m = 2 * (m div 2)" "\<bar>real_of_int (m div 2)\<bar> < 2 ^ 24" by auto
  have eq: "real_of_int m * 2 powi d = of_int (m div 2) * 2 powi (d + 1)"
  proof -
    have "real_of_int m = 2 * of_int (m div 2)" using mm(1) by linarith
    then show ?thesis by (simp add: power_int_add)
  qed
  have "- 149 \<le> d + 1" using d by simp
  from to_float_grid_lt[OF this mm(2)] x show ?thesis unfolding eq by simp
qed

lemma to_float_zero: "to_float 0 = Fin 0"
  using to_float_grid_lt[of 0 0] by simp

lemma to_float_int:
  assumes "\<bar>n\<bar> \<le> 2 ^ 24"
  shows "to_float (real_of_int n) = Fin (real_of_int n)"
proof -
  have "real_of_int \<bar>n\<bar> \<le> real_of_int (2 ^ 24)" using assms by (simp only: of_int_le_iff)
  then have "\<bar>real_of_int n\<bar> \<le> 2 ^ 24" by simp
  moreover have "(2::real) ^ 24 < 2 ^ 128" by simp
  ultimately show ?thesis using to_float_grid[of 0 n] by simp
qed

lemma shift24: "(2::real) powi (e + 24) = 2 ^ 24 * 2 powi e" "(2::real) powi (e + 23) = 2 ^ 23 * 2 powi e"
  by (simp_all add: power_int_add)

lemma rhe_ge: "real_of_int n \<le> x \<Longrightarrow> real_of_int n \<le> real_of_int (round_half_even x)"
  using rhe_mono[of "real_of_int n" x] by (simp only: rhe_int of_int_le_iff)

lemma rhe_le: "x \<le> real_of_int n \<Longrightarrow> real_of_int (round_half_even x) \<le> real_of_int n"
  using rhe_mono[of x "real_of_int n"] by (simp only: rhe_int of_int_le_iff)

lemma grid_upper:
  assumes "x < 2 powi (e + 24)"
  shows "real_of_int (round_half_even (x / 2 powi e)) * 2 powi e \<le> 2 powi (e + 24)"
proof -
  have "x / 2 powi e \<le> real_of_int (2 ^ 24)"
    using assms pow2_pos[of e] by (simp add: shift24 pos_divide_le_eq)
  from rhe_le[OF this] have "real_of_int (round_half_even (x / 2 powi e)) \<le> 2 ^ 24" by simp
  then show ?thesis using pow2_pos[of e] by (simp add: shift24)
qed

lemma grid_lower:
  assumes "2 powi (e + 23) \<le> x"
  shows "2 powi (e + 23) \<le> real_of_int (round_half_even (x / 2 powi e)) * 2 powi e"
proof -
  have "real_of_int (2 ^ 23) \<le> x / 2 powi e"
    using assms pow2_pos[of e] by (simp add: shift24 pos_le_divide_eq)
  from rhe_ge[OF this] have "2 ^ 23 \<le> real_of_int (round_half_even (x / 2 powi e))" by simp
  then show ?thesis using pow2_pos[of e] by (simp add: shift24)
qed

lemma grid_nonneg:
  assumes "0 \<le> x"
  shows "0 \<le> round_to_grid x"
proof -
  have "real_of_int 0 \<le> x / 2 powi ulp_exponent x" using assms pow2_pos[of "ulp_exponent x"] by simp
  from rhe_ge[OF this] have "0 \<le> real_of_int (round_half_even (x / 2 powi ulp_exponent x))" by simp
  then show ?thesis using pow2_pos[of "ulp_exponent x"] by (simp add: round_to_grid_def)
qed

lemma grid_overflow:
  assumes "2 ^ 128 \<le> x"
  shows "2 ^ 128 \<le> round_to_grid x"
proof -
  have ax: "2 powi 128 \<le> \<bar>x\<bar>" using assms by simp
  then have e: "ulp_exponent x = 104" by (rule ulp_exponent_top)
  have "(2::real) powi (104 + 23) \<le> x" using assms by simp
  from grid_lower[OF this] have "2 powi 127 \<le> round_to_grid x" by (simp add: round_to_grid_def e)
  have "real_of_int (2 ^ 24) \<le> x / 2 powi 104" using assms by simp
  from rhe_ge[OF this] have "2 ^ 24 \<le> real_of_int (round_half_even (x / 2 powi 104))" by simp
  then show ?thesis by (simp add: round_to_grid_def e)
qed

lemma grid_mono:
  assumes "0 \<le> x" "x \<le> y" "y < 2 ^ 128"
  shows "round_to_grid x \<le> round_to_grid y"
proof -
  let ?ex = "ulp_exponent x" and ?ey = "ulp_exponent y"
  have ax: "\<bar>x\<bar> = x" "\<bar>y\<bar> = y" using assms by simp_all
  have ux: "x < 2 powi (?ex + 24)" using ulp_exponent_upper[of x] assms ax by simp
  have uy: "y < 2 powi (?ey + 24)" using ulp_exponent_upper[of y] assms ax by simp
  have le: "?ex \<le> ?ey"
  proof (rule ccontr)
    assume "\<not> ?ex \<le> ?ey"
    then have lt: "?ey < ?ex" by simp
    then have "- 149 < ?ex" using ulp_exponent_range(1)[of y] by simp
    from ulp_exponent_lower[OF this] have "2 powi (?ex + 23) \<le> x" using ax by simp
    also note assms(2)
    also note uy
    also have "(2::real) powi (?ey + 24) \<le> 2 powi (?ex + 23)"
      using lt by (intro power_int_increasing) auto
    finally show False by simp
  qed
  show ?thesis
  proof (cases "?ex = ?ey")
    case True
    have "x / 2 powi ?ey \<le> y / 2 powi ?ey"
      using assms(2) pow2_pos[of ?ey] by (simp add: divide_right_mono)
    from rhe_mono[OF this] have "real_of_int (round_half_even (x / 2 powi ?ey))
        \<le> real_of_int (round_half_even (y / 2 powi ?ey))" by (simp only: of_int_le_iff)
    then show ?thesis using pow2_pos[of ?ey] by (simp add: round_to_grid_def True)
  next
    case False
    with le have lt: "?ex < ?ey" by simp
    then have "- 149 < ?ey" using ulp_exponent_range(1)[of x] by simp
    from ulp_exponent_lower[OF this] have "2 powi (?ey + 23) \<le> y" using ax by simp
    from grid_lower[OF this] have "2 powi (?ey + 23) \<le> round_to_grid y"
      by (simp add: round_to_grid_def)
    moreover from grid_upper[OF ux] have "round_to_grid x \<le> 2 powi (?ex + 24)"
      by (simp add: round_to_grid_def)
    moreover have "(2::real) powi (?ex + 24) \<le> 2 powi (?ey + 23)"
      using lt by (intro power_int_increasing) auto
    ultimately show ?thesis by linarith
  qed
qed

lemma to_float_mono:
  assumes "0 \<le> x" "x \<le> y"
  shows "le (to_float x) (to_float y)"
proof (cases "y < 2 ^ 128")
  case True
  from grid_mono[OF assms True] grid_nonneg[OF assms(1)] show ?thesis
    by (simp add: to_float_alt)
next
  case False
  then have "2 ^ 128 \<le> round_to_grid y" by (intro grid_overflow) simp
  then show ?thesis using grid_nonneg[OF assms(1)] by (simp add: to_float_alt)
qed

lemma to_float_nonneg:
  assumes "0 \<le> x"
  shows "to_float x = PInf \<or> (\<exists>y. to_float x = Fin y \<and> 0 \<le> y)"
  using grid_nonneg[OF assms] by (simp add: to_float_alt)

lemma to_float_not_NaN: "to_float x \<noteq> NaN"
  by (simp add: to_float_alt)

lemma to_float_overflow: "2 ^ 128 \<le> x \<Longrightarrow> to_float x = PInf"
  using grid_overflow[of x] by (simp add: to_float_alt)

lemma to_float_idem:
  assumes "to_float x = Fin y"
  shows "to_float y = Fin y"
proof -
  let ?e = "ulp_exponent x"
  let ?m = "round_half_even (x / 2 powi ?e)"
  from assms have y: "y = real_of_int ?m * 2 powi ?e" and ylt: "\<bar>y\<bar> < 2 ^ 128"
    by (auto simp add: to_float_alt round_to_grid_def split: if_splits)
  have xlt: "\<bar>x\<bar> < 2 powi 128"
  proof (rule ccontr)
    assume "\<not> \<bar>x\<bar> < 2 powi 128"
    then have big: "2 powi 128 \<le> \<bar>x\<bar>" by simp
    then have e: "?e = 104" by (rule ulp_exponent_top)
    show False
    proof (cases "0 \<le> x")
      case True
      with big have "2 ^ 128 \<le> x" by simp
      from grid_overflow[OF this] y ylt show False by (simp add: round_to_grid_def)
    next
      case False
      with big have "x / 2 powi 104 \<le> real_of_int (- (2 ^ 24))" by simp
      from rhe_le[OF this] have "real_of_int (round_half_even (x / 2 powi 104)) \<le> - (2 ^ 24)" by simp
      then have "y \<le> - (2 ^ 128)" unfolding y e by simp
      with ylt show False by simp
    qed
  qed
  from ulp_exponent_upper[OF this] have up: "\<bar>x\<bar> < 2 powi (?e + 24)" .
  have "\<bar>x\<bar> / 2 powi ?e \<le> 2 ^ 24"
    using up pow2_pos[of ?e] by (simp add: shift24 pos_divide_le_eq)
  moreover have "\<bar>x / 2 powi ?e\<bar> = \<bar>x\<bar> / 2 powi ?e"
    using pow2_pos[of ?e] by (simp add: abs_divide)
  ultimately have "- (2 ^ 24) \<le> x / 2 powi ?e" "x / 2 powi ?e \<le> 2 ^ 24"
    by linarith+
  then have "real_of_int (- (2 ^ 24)) \<le> x / 2 powi ?e" "x / 2 powi ?e \<le> real_of_int (2 ^ 24)"
    by simp_all
  from rhe_ge[OF this(1)] rhe_le[OF this(2)] have m: "\<bar>real_of_int ?m\<bar> \<le> 2 ^ 24"
    by simp
  from to_float_grid[OF ulp_exponent_range(1) m] ylt show ?thesis unfolding y by simp
qed

lemma to_float_binade:
  assumes "- 149 \<le> e" "e \<le> 104" "\<bar>x\<bar> < 2 powi (e + 24)" "e = - 149 \<or> 2 powi (e + 23) \<le> \<bar>x\<bar>"
  shows "to_float x =
     (let y = real_of_int (round_half_even (x / 2 powi e)) * 2 powi e
      in if 2 ^ 128 \<le> y then PInf else if y \<le> - (2 ^ 128) then NInf else Fin y)"
  by (simp add: to_float_def round_to_grid_def ulp_exponent_eq[OF assms] Let_def)


lemma to_float_numeral:
  "numeral k \<le> (16777216::int) \<Longrightarrow> to_float (numeral k) = Fin (numeral k)"
  "numeral k \<le> (16777216::int) \<Longrightarrow> to_float (- numeral k) = Fin (- numeral k)"
  "to_float 1 = Fin 1"
  "to_float (- 1) = Fin (- 1)"
  using to_float_int[of "numeral k"] to_float_int[of "- numeral k"] to_float_int[of 1] to_float_int[of "- 1"]
  by simp_all

text \<open>
  Known roundings of binary32: the floats nearest to \<open>1/10\<close> and \<open>1/3\<close>, two ties among the
  subnormal numbers, a tie above \<open>2^24\<close> in each direction, and the two sides of the overflow
  threshold \<open>2^128 - 2^103\<close>.
\<close>

lemma to_float_known_values:
  "to_float (1 / 10) = Fin (13421773 / 2 ^ 27)"
  "to_float (1 / 3) = Fin (11184811 / 2 ^ 25)"
  "to_float (1 / 2 ^ 150) = Fin 0"
  "to_float (3 / 2 ^ 150) = Fin (1 / 2 ^ 148)"
  "to_float (- 16777217) = Fin (- 16777216)"
  "to_float 16777219 = Fin 16777220"
  "to_float (2 ^ 128 - 2 ^ 103) = PInf"
  "to_float (2 ^ 128 - 2 ^ 103 - 1) = Fin (2 ^ 128 - 2 ^ 104)"
proof -
  show "to_float (1 / 10) = Fin (13421773 / 2 ^ 27)"
    by (subst to_float_binade[of "- 27"]) (simp_all add: round_half_even_def)
  show "to_float (1 / 3) = Fin (11184811 / 2 ^ 25)"
    by (subst to_float_binade[of "- 25"]) (simp_all add: round_half_even_def)
  show "to_float (1 / 2 ^ 150) = Fin 0"
    by (subst to_float_binade[of "- 149"]) (simp_all add: round_half_even_def)
  show "to_float (3 / 2 ^ 150) = Fin (1 / 2 ^ 148)"
    by (subst to_float_binade[of "- 149"]) (simp_all add: round_half_even_def)
  show "to_float (- 16777217) = Fin (- 16777216)"
    by (subst to_float_binade[of 1]) (simp_all add: round_half_even_def)
  show "to_float 16777219 = Fin 16777220"
    by (subst to_float_binade[of 1]) (simp_all add: round_half_even_def)
  show "to_float (2 ^ 128 - 2 ^ 103) = PInf"
    by (subst to_float_binade[of 104]) (simp_all add: round_half_even_def)
  show "to_float (2 ^ 128 - 2 ^ 103 - 1) = Fin (2 ^ 128 - 2 ^ 104)"
    by (subst to_float_binade[of 104]) (simp_all add: round_half_even_def)
qed

lemma to_float_examples:
  "to_float 16777217 = Fin 16777216"
  "to_float (2 ^ 127) = Fin (2 ^ 127)"
  "to_float (2 ^ 127 + 2 ^ 127) = PInf"
proof -
  show "to_float 16777217 = Fin 16777216"
    by (subst to_float_binade[of 1]) (simp_all add: round_half_even_def)
  show "to_float (2 ^ 127) = Fin (2 ^ 127)"
    using to_float_grid_lt[of 127 1] by simp
  show "to_float (2 ^ 127 + 2 ^ 127) = PInf"
    by (rule to_float_overflow) simp
qed

subsection \<open>Comparisons and sums of floats\<close>

lemma cost_le_refl: "a \<noteq> NaN \<Longrightarrow> le a a"
  by (cases a) auto

lemma cost_le_trans: "le a b \<Longrightarrow> le b c \<Longrightarrow> le a c"
  by (cases a; cases b; cases c) auto

lemma cost_lt_iff: "a \<noteq> NaN \<Longrightarrow> b \<noteq> NaN \<Longrightarrow> lt a b = (\<not> le b a)"
  by (cases a; cases b) auto

lemma cost_le_total: "a \<noteq> NaN \<Longrightarrow> b \<noteq> NaN \<Longrightarrow> le a b \<or> le b a"
  by (cases a; cases b) auto

lemma cost_lt_le: "lt a b \<Longrightarrow> le a b"
  by (cases a; cases b) auto

lemma cost_lt_irrefl: "\<not> lt a a"
  by (cases a) auto

lemma cost_lt_not_NaN: "lt a b \<Longrightarrow> a \<noteq> NaN \<and> b \<noteq> NaN"
  by (cases a; cases b) auto

lemma cost_le_not_NaN: "le a b \<Longrightarrow> a \<noteq> NaN \<and> b \<noteq> NaN"
  by (cases a; cases b) auto

lemma cost_le_PInf: "le a PInf = (a \<noteq> NaN)"
  by (cases a) auto

lemma distance_value_not_NaN: "distance_value c \<Longrightarrow> c \<noteq> NaN"
  by (auto simp add: distance_value_def)

lemma distance_value_zero: "distance_value (Fin 0)"
  by (simp add: distance_value_def to_float_zero)

lemma entry_cases: "le (Fin 0) w \<Longrightarrow> w = PInf \<or> (\<exists>b. w = Fin b \<and> 0 \<le> b)"
  by (cases w) auto

lemma add_distance_value:
  assumes "distance_value a" "le (Fin 0) w"
  shows "distance_value (add a w)"
proof -
  from entry_cases[OF assms(2)] show ?thesis
  proof
    assume "w = PInf"
    then show ?thesis using assms(1) by (auto simp add: distance_value_def)
  next
    assume "\<exists>b. w = Fin b \<and> 0 \<le> b"
    then obtain b where b: "w = Fin b" "0 \<le> b" by blast
    show ?thesis
    proof (cases "a = PInf")
      case True
      then show ?thesis using b by (simp add: distance_value_def)
    next
      case False
      with assms(1) obtain x where x: "a = Fin x" "0 \<le> x" by (auto simp add: distance_value_def)
      then have "0 \<le> x + b" using b by simp
      from to_float_nonneg[OF this] show ?thesis
        using x b by (auto simp add: distance_value_def dest: to_float_idem)
    qed
  qed
qed

lemma cost_le_add_right:
  assumes "distance_value a" "le (Fin 0) w"
  shows "le a (add a w)"
proof -
  from entry_cases[OF assms(2)] show ?thesis
  proof
    assume "w = PInf"
    then show ?thesis using assms(1) by (auto simp add: distance_value_def)
  next
    assume "\<exists>b. w = Fin b \<and> 0 \<le> b"
    then obtain b where b: "w = Fin b" "0 \<le> b" by blast
    show ?thesis
    proof (cases "a = PInf")
      case True
      then show ?thesis using b by simp
    next
      case False
      with assms(1) obtain x where x: "a = Fin x" "0 \<le> x" "to_float x = Fin x"
        by (auto simp add: distance_value_def)
      have "le (to_float x) (to_float (x + b))" using x(2) b(2) by (intro to_float_mono) simp_all
      then show ?thesis using x b by simp
    qed
  qed
qed

lemma cost_add_mono_left:
  assumes "distance_value a" "distance_value b" "le a b" "le (Fin 0) w"
  shows "le (add a w) (add b w)"
proof -
  from entry_cases[OF assms(4)] show ?thesis
  proof
    assume "w = PInf"
    then show ?thesis using assms(1,2) by (auto simp add: distance_value_def)
  next
    assume "\<exists>c. w = Fin c \<and> 0 \<le> c"
    then obtain c where c: "w = Fin c" "0 \<le> c" by blast
    show ?thesis
    proof (cases "b = PInf")
      case True
      have "add a w \<noteq> NaN"
        using add_distance_value[OF assms(1,4)] by (rule distance_value_not_NaN)
      then show ?thesis using True c by (simp add: cost_le_PInf)
    next
      case False
      with assms(2) obtain y where y: "b = Fin y" "0 \<le> y" by (auto simp add: distance_value_def)
      with assms(1,3) obtain x where x: "a = Fin x" "0 \<le> x" "x \<le> y"
        by (auto simp add: distance_value_def)
      have "le (to_float (x + c)) (to_float (y + c))" using x c by (intro to_float_mono) simp_all
      then show ?thesis using x y c by simp
    qed
  qed
qed

subsection \<open>Initialisation\<close>

lemma init_loop: "for_range n init_step ([], []) = Inr (replicate n PInf, replicate n False)"
  by (induction n) (simp_all add: and_then_def init_step_def replicate_append_same)

lemma start_defined:
  assumes "0 \<le> s" "s < int (length g)"
  shows "start (Dijkstra g) s = Inr ((replicate (length g) PInf)[nat s := Fin 0], replicate (length g) False)"
  using assms by (simp add: start_def Dijkstra_def init_loop and_then_def vec_put_def)

lemma start_undefined:
  assumes "s < 0 \<or> int (length g) \<le> s"
  shows "start (Dijkstra g) s = Inl Undefined"
  using assms by (auto simp add: start_def Dijkstra_def init_loop and_then_def vec_put_def)

subsection \<open>The selection\<close>

lemma min_loop:
  assumes "length dists = n" "length is_processed = n"
  shows "j \<le> n \<Longrightarrow>
    \<exists>m mi. for_range j (min_step dists is_processed) (PInf, None) = Inr (m, mi) \<and>
      (case mi of
         None \<Rightarrow> m = PInf \<and> (\<forall>v<j. is_processed ! v \<or> dists ! v = NaN)
       | Some i \<Rightarrow> \<exists>u. i = int u \<and> u < j \<and> \<not> is_processed ! u \<and> m = dists ! u \<and> m \<noteq> NaN \<and>
           (\<forall>v<j. \<not> is_processed ! v \<and> dists ! v \<noteq> NaN \<longrightarrow> le m (dists ! v)) \<and>
           (\<forall>v. u < v \<and> v < j \<and> \<not> is_processed ! v \<and> dists ! v \<noteq> NaN \<longrightarrow> lt m (dists ! v)))"
proof (induction j)
  case 0
  then show ?case by simp
next
  case (Suc j)
  then obtain m mi where run: "for_range j (min_step dists is_processed) (PInf, None) = Inr (m, mi)"
    and inv: "(case mi of
         None \<Rightarrow> m = PInf \<and> (\<forall>v<j. is_processed ! v \<or> dists ! v = NaN)
       | Some i \<Rightarrow> \<exists>u. i = int u \<and> u < j \<and> \<not> is_processed ! u \<and> m = dists ! u \<and> m \<noteq> NaN \<and>
           (\<forall>v<j. \<not> is_processed ! v \<and> dists ! v \<noteq> NaN \<longrightarrow> le m (dists ! v)) \<and>
           (\<forall>v. u < v \<and> v < j \<and> \<not> is_processed ! v \<and> dists ! v \<noteq> NaN \<longrightarrow> lt m (dists ! v)))"
    by auto
  have j: "j < n" using Suc.prems by simp
  have mn: "m \<noteq> NaN" using inv by (cases mi) auto
  show ?case
  proof (cases "\<not> is_processed ! j \<and> le (dists ! j) m")
    case True
    have step: "for_range (Suc j) (min_step dists is_processed) (PInf, None) = Inr (dists ! j, Some (int j))"
      using run True j assms by (simp add: and_then_def min_step_def vec_get_def)
    have dj: "dists ! j \<noteq> NaN" using True cost_le_not_NaN by blast
    have "\<forall>v<Suc j. \<not> is_processed ! v \<and> dists ! v \<noteq> NaN \<longrightarrow> le (dists ! j) (dists ! v)"
    proof (intro allI impI)
      fix v assume v: "v < Suc j" "\<not> is_processed ! v \<and> dists ! v \<noteq> NaN"
      show "le (dists ! j) (dists ! v)"
      proof (cases "v = j")
        case True then show ?thesis using dj by (simp add: cost_le_refl)
      next
        case False
        with v have vj: "v < j" by simp
        with v inv have "le m (dists ! v)" by (cases mi) (auto simp add: cost_le_PInf)
        with True show ?thesis using cost_le_trans by blast
      qed
    qed
    with step True dj show ?thesis by auto
  next
    case False
    have step: "for_range (Suc j) (min_step dists is_processed) (PInf, None) = Inr (m, mi)"
      using run False j assms by (auto simp add: and_then_def min_step_def vec_get_def)
    from False mn have new: "\<not> is_processed ! j \<and> dists ! j \<noteq> NaN \<longrightarrow> lt m (dists ! j) \<and> le m (dists ! j)"
      using cost_lt_iff cost_le_total by blast
    show ?thesis
    proof (cases mi)
      case None
      with inv have "m = PInf" by simp
      with new have "is_processed ! j \<or> dists ! j = NaN" by auto
      with None inv step show ?thesis by (auto simp: less_Suc_eq)
    next
      case (Some i)
      with inv obtain u where u: "i = int u" "u < j" "\<not> is_processed ! u" "m = dists ! u"
        "\<forall>v<j. \<not> is_processed ! v \<and> dists ! v \<noteq> NaN \<longrightarrow> le m (dists ! v)"
        "\<forall>v. u < v \<and> v < j \<and> \<not> is_processed ! v \<and> dists ! v \<noteq> NaN \<longrightarrow> lt m (dists ! v)" by auto
      have "\<forall>v<Suc j. \<not> is_processed ! v \<and> dists ! v \<noteq> NaN \<longrightarrow> le m (dists ! v)"
        using u(5) new by (auto simp: less_Suc_eq)
      moreover have "\<forall>v. u < v \<and> v < Suc j \<and> \<not> is_processed ! v \<and> dists ! v \<noteq> NaN \<longrightarrow> lt m (dists ! v)"
        using u(6) new by (auto simp: less_Suc_eq)
      ultimately show ?thesis using step Some u(1-4) mn by auto
    qed
  qed
qed

lemma min_distance_spec:
  assumes "length dists = length g" "length is_processed = length g"
    and "v0 < length g" "\<not> is_processed ! v0" "dists ! v0 \<noteq> NaN"
  shows "\<exists>u<length g. min_distance (Dijkstra g) dists is_processed = Inr (int u) \<and>
           \<not> is_processed ! u \<and> dists ! u \<noteq> NaN \<and>
           (\<forall>v<length g. \<not> is_processed ! v \<and> dists ! v \<noteq> NaN \<longrightarrow> le (dists ! u) (dists ! v)) \<and>
           (\<forall>v. u < v \<and> v < length g \<and> \<not> is_processed ! v \<and> dists ! v \<noteq> NaN \<longrightarrow> lt (dists ! u) (dists ! v))"
proof -
  from min_loop[OF assms(1,2), of "length g"] obtain m mi where
    run: "for_range (length g) (min_step dists is_processed) (PInf, None) = Inr (m, mi)"
    and inv: "(case mi of
         None \<Rightarrow> m = PInf \<and> (\<forall>v<length g. is_processed ! v \<or> dists ! v = NaN)
       | Some i \<Rightarrow> \<exists>u. i = int u \<and> u < length g \<and> \<not> is_processed ! u \<and> m = dists ! u \<and> m \<noteq> NaN \<and>
           (\<forall>v<length g. \<not> is_processed ! v \<and> dists ! v \<noteq> NaN \<longrightarrow> le m (dists ! v)) \<and>
           (\<forall>v. u < v \<and> v < length g \<and> \<not> is_processed ! v \<and> dists ! v \<noteq> NaN \<longrightarrow> lt m (dists ! v)))"
    by auto
  from inv assms(3,4,5) obtain i where mi: "mi = Some i" by (cases mi) auto
  with inv obtain u where u: "i = int u" "u < length g" "\<not> is_processed ! u" "m = dists ! u" "m \<noteq> NaN"
        "\<forall>v<length g. \<not> is_processed ! v \<and> dists ! v \<noteq> NaN \<longrightarrow> le m (dists ! v)"
        "\<forall>v. u < v \<and> v < length g \<and> \<not> is_processed ! v \<and> dists ! v \<noteq> NaN \<longrightarrow> lt m (dists ! v)" by auto
  have "min_distance (Dijkstra g) dists is_processed = Inr (int u)"
    using run mi u(1) by (simp add: min_distance_def Dijkstra_def and_then_def)
  with u show ?thesis by auto
qed

lemma min_distance_none:
  assumes "length dists = length g" "length is_processed = length g"
    and "\<forall>v<length g. is_processed ! v \<or> dists ! v = NaN"
  shows "min_distance (Dijkstra g) dists is_processed = Inl Undefined"
proof -
  from min_loop[OF assms(1,2), of "length g"] obtain m mi where
    run: "for_range (length g) (min_step dists is_processed) (PInf, None) = Inr (m, mi)"
    and inv: "(case mi of
         None \<Rightarrow> m = PInf \<and> (\<forall>v<length g. is_processed ! v \<or> dists ! v = NaN)
       | Some i \<Rightarrow> \<exists>u. i = int u \<and> u < length g \<and> \<not> is_processed ! u \<and> m = dists ! u \<and> m \<noteq> NaN \<and>
           (\<forall>v<length g. \<not> is_processed ! v \<and> dists ! v \<noteq> NaN \<longrightarrow> le m (dists ! v)) \<and>
           (\<forall>v. u < v \<and> v < length g \<and> \<not> is_processed ! v \<and> dists ! v \<noteq> NaN \<longrightarrow> lt m (dists ! v)))"
    by auto
  from inv assms(3) have "mi = None" by (cases mi) auto
  with run show ?thesis by (simp add: min_distance_def Dijkstra_def and_then_def)
qed

subsection \<open>The relaxation loop\<close>

lemma square_row: "square g \<Longrightarrow> u < length g \<Longrightarrow> length (g ! u) = length g"
  by (simp add: square_def list_all_length)

lemma non_negative_entry:
  "non_negative g \<Longrightarrow> u < length g \<Longrightarrow> v < length (g ! u) \<Longrightarrow> le (Fin 0) (g ! u ! v)"
  by (simp add: non_negative_def list_all_length)

text \<open>The relaxation loop, in closed form after its first j iterations.\<close>

lemma relax_loop:
  assumes sq: "square g" and u: "u < length g" and pu: "is_processed ! u"
    and ld: "length dists = length g" and lp: "length is_processed = length g"
  shows "j \<le> length g \<Longrightarrow>
    \<exists>dists'. for_range j (relax_step (Dijkstra g) (int u) is_processed) dists = Inr dists' \<and>
      length dists' = length g \<and>
      (\<forall>v<length g. dists' ! v =
         (if v < j \<and> \<not> is_processed ! v \<and> g ! u ! v \<noteq> Fin 0 \<and> dists ! u \<noteq> PInf \<and>
             lt (add (dists ! u) (g ! u ! v)) (dists ! v)
          then add (dists ! u) (g ! u ! v) else dists ! v))"
proof (induction j)
  case 0
  then show ?case using ld by simp
next
  case (Suc j)
  then obtain d1 where run: "for_range j (relax_step (Dijkstra g) (int u) is_processed) dists = Inr d1"
    and len: "length d1 = length g"
    and val: "\<forall>v<length g. d1 ! v =
         (if v < j \<and> \<not> is_processed ! v \<and> g ! u ! v \<noteq> Fin 0 \<and> dists ! u \<noteq> PInf \<and>
             lt (add (dists ! u) (g ! u ! v)) (dists ! v)
          then add (dists ! u) (g ! u ! v) else dists ! v)"
    by auto
  have j: "j < length g" using Suc.prems by simp
  have row: "length (g ! u) = length g" using sq u by (rule square_row)
  have d1u: "d1 ! u = dists ! u" using val u pu by simp
  have d1j: "d1 ! j = dists ! j" using val j by simp
  let ?c = "\<not> is_processed ! j \<and> g ! u ! j \<noteq> Fin 0 \<and> dists ! u \<noteq> PInf \<and>
             lt (add (dists ! u) (g ! u ! j)) (dists ! j)"
  let ?d2 = "if ?c then d1[j := add (dists ! u) (g ! u ! j)] else d1"
  have step: "relax_step (Dijkstra g) (int u) is_processed (int j) d1 = Inr ?d2"
    using j u row len lp d1u d1j
    by (simp add: relax_step_def Dijkstra_def and_then_def vec_get_def vec_put_def)
  have "for_range (Suc j) (relax_step (Dijkstra g) (int u) is_processed) dists = Inr ?d2"
    using run step by (simp add: and_then_def)
  moreover have "length ?d2 = length g" using len by simp
  moreover have "\<forall>v<length g. ?d2 ! v =
         (if v < Suc j \<and> \<not> is_processed ! v \<and> g ! u ! v \<noteq> Fin 0 \<and> dists ! u \<noteq> PInf \<and>
             lt (add (dists ! u) (g ! u ! v)) (dists ! v)
          then add (dists ! u) (g ! u ! v) else dists ! v)"
  proof (intro allI impI)
    fix v assume v: "v < length g"
    show "?d2 ! v =
         (if v < Suc j \<and> \<not> is_processed ! v \<and> g ! u ! v \<noteq> Fin 0 \<and> dists ! u \<noteq> PInf \<and>
             lt (add (dists ! u) (g ! u ! v)) (dists ! v)
          then add (dists ! u) (g ! u ! v) else dists ! v)"
    proof (cases "v = j")
      case True
      then show ?thesis using d1j len j by simp
    next
      case False
      then have "?d2 ! v = d1 ! v" by simp
      moreover have "(v < Suc j) = (v < j)" using False by auto
      ultimately show ?thesis using val v by simp
    qed
  qed
  ultimately show ?case by blast
qed

subsection \<open>Paths, counting and one iteration\<close>

lemma path_snoc:
  "is_path g u (p @ [v]) = (is_path g u p \<and> v < length g \<and> g ! (path_end u p) ! v \<noteq> Fin 0)"
  "path_end u (p @ [v]) = v"
  "accumulate g acc u (p @ [v]) = add (accumulate g acc u p) (g ! (path_end u p) ! v)"
  by (induction p arbitrary: u acc) auto

lemma count_update:
  "u < length ps \<Longrightarrow> \<not> ps ! u \<Longrightarrow> processed_count (ps[u := True]) = Suc (processed_count ps)"
  unfolding processed_count_def
proof (induction ps arbitrary: u)
  case Nil
  then show ?case by simp
next
  case (Cons p ps)
  then show ?case by (cases u) auto
qed

lemma count_all: "(\<forall>v<length ps. ps ! v) \<Longrightarrow> processed_count ps = length ps"
  unfolding processed_count_def
  by (metis filter_True in_set_conv_nth)

lemma count_unprocessed:
  "processed_count ps < length ps \<Longrightarrow> \<exists>v<length ps. \<not> ps ! v"
  using count_all by fastforce

lemma count_replicate: "processed_count (replicate n False) = 0"
  by (simp add: processed_count_def)

lemma count_unique:
  assumes "Suc (processed_count ps) = length ps" "v < length ps" "w < length ps" "\<not> ps ! v" "\<not> ps ! w"
  shows "v = w"
proof -
  let ?U = "{i. i < length ps \<and> \<not> ps ! i}"
  have "length (filter (\<lambda>p. p) ps) + length (filter (\<lambda>p. \<not> p) ps) = length ps"
    by (rule sum_length_filter_compl)
  with assms(1) have "length (filter (\<lambda>p. \<not> p) ps) = 1" by (simp add: processed_count_def)
  then have "card ?U = 1" by (simp add: length_filter_conv_card)
  moreover have "v \<in> ?U" "w \<in> ?U" using assms by auto
  ultimately show ?thesis by (metis card_1_singletonE singletonD)
qed

lemma main_step_spec:
  assumes sq: "square g"
    and ld: "length dists = length g" and lp: "length is_processed = length g"
    and v0: "v0 < length g" "\<not> is_processed ! v0" "dists ! v0 \<noteq> NaN"
  shows "\<exists>u dists'. u < length g \<and> min_distance (Dijkstra g) dists is_processed = Inr (int u) \<and>
           \<not> is_processed ! u \<and> dists ! u \<noteq> NaN \<and>
           (\<forall>v<length g. \<not> is_processed ! v \<and> dists ! v \<noteq> NaN \<longrightarrow> le (dists ! u) (dists ! v)) \<and>
           main_step (Dijkstra g) c (dists, is_processed) = Inr (dists', is_processed[u := True]) \<and>
           length dists' = length g \<and>
           (\<forall>v<length g. dists' ! v =
             (if \<not> is_processed[u := True] ! v \<and> g ! u ! v \<noteq> Fin 0 \<and> dists ! u \<noteq> PInf \<and>
                 lt (add (dists ! u) (g ! u ! v)) (dists ! v)
              then add (dists ! u) (g ! u ! v) else dists ! v))"
proof -
  from min_distance_spec[OF ld lp v0] obtain u where u: "u < length g"
    and sel: "min_distance (Dijkstra g) dists is_processed = Inr (int u)"
    and unp: "\<not> is_processed ! u" and un: "dists ! u \<noteq> NaN"
    and least: "\<forall>v<length g. \<not> is_processed ! v \<and> dists ! v \<noteq> NaN \<longrightarrow> le (dists ! u) (dists ! v)"
    by blast
  let ?ps = "is_processed[u := True]"
  have pu: "?ps ! u" using u lp by simp
  have lps: "length ?ps = length g" using lp by simp
  from relax_loop[OF sq u pu ld lps, of "length g"] obtain dists' where
    run: "for_range (length g) (relax_step (Dijkstra g) (int u) ?ps) dists = Inr dists'"
    and len: "length dists' = length g"
    and val: "\<forall>v<length g. dists' ! v =
             (if v < length g \<and> \<not> ?ps ! v \<and> g ! u ! v \<noteq> Fin 0 \<and> dists ! u \<noteq> PInf \<and>
                 lt (add (dists ! u) (g ! u ! v)) (dists ! v)
              then add (dists ! u) (g ! u ! v) else dists ! v)"
    by auto
  have "size_d (Dijkstra g) = int (length g)" by (simp add: Dijkstra_def)
  then have "main_step (Dijkstra g) c (dists, is_processed) = Inr (dists', ?ps)"
    using sel run u lp by (simp add: main_step_def and_then_def vec_put_def)
  moreover from val have "\<forall>v<length g. dists' ! v =
             (if \<not> ?ps ! v \<and> g ! u ! v \<noteq> Fin 0 \<and> dists ! u \<noteq> PInf \<and>
                 lt (add (dists ! u) (g ! u ! v)) (dists ! v)
              then add (dists ! u) (g ! u ! v) else dists ! v)" by simp
  ultimately show ?thesis using u sel unp un least len by blast
qed

subsection \<open>The invariants are kept\<close>

lemma basic_step:
  assumes sq: "square g" and s: "s < length g"
    and inv: "basic_inv g s k (dists, ps)" and k: "Suc k < length g"
  shows "\<exists>u dists'. u < length g \<and> \<not> ps ! u \<and> dists ! u \<noteq> NaN \<and>
           min_distance (Dijkstra g) dists ps = Inr (int u) \<and>
           (\<forall>v<length g. \<not> ps ! v \<and> dists ! v \<noteq> NaN \<longrightarrow> le (dists ! u) (dists ! v)) \<and>
           main_step (Dijkstra g) c (dists, ps) = Inr (dists', ps[u := True]) \<and>
           (\<forall>v<length g. dists' ! v =
             (if \<not> ps[u := True] ! v \<and> g ! u ! v \<noteq> Fin 0 \<and> dists ! u \<noteq> PInf \<and>
                 lt (add (dists ! u) (g ! u ! v)) (dists ! v)
              then add (dists ! u) (g ! u ! v) else dists ! v)) \<and>
           basic_inv g s (Suc k) (dists', ps[u := True])"
proof -
  from inv have ld: "length dists = length g" and lp: "length ps = length g"
    and cnt: "processed_count ps = k" and ds: "dists ! s = Fin 0"
    and fresh: "\<not> ps ! s \<longrightarrow> (\<forall>v<length g. v \<noteq> s \<longrightarrow> dists ! v = PInf)"
    and numbers: "\<forall>v<length g. dists ! v \<noteq> NaN"
    and attained: "\<forall>v<length g. dists ! v = PInf \<or>
         (\<exists>p. is_path g s p \<and> path_end s p = v \<and> path_weight g s p = dists ! v)"
    by (simp_all add: basic_inv_def)
  from cnt k lp have "processed_count ps < length ps" by simp
  then obtain v0 where v0: "v0 < length g" "\<not> ps ! v0"
    using count_unprocessed lp by metis
  from numbers v0(1) have v0n: "dists ! v0 \<noteq> NaN" by simp
  from main_step_spec[OF sq ld lp v0 v0n, of c] obtain u dists' where u: "u < length g"
    and sel: "min_distance (Dijkstra g) dists ps = Inr (int u)"
    and unp: "\<not> ps ! u" and un: "dists ! u \<noteq> NaN"
    and least: "\<forall>v<length g. \<not> ps ! v \<and> dists ! v \<noteq> NaN \<longrightarrow> le (dists ! u) (dists ! v)"
    and run: "main_step (Dijkstra g) c (dists, ps) = Inr (dists', ps[u := True])"
    and len: "length dists' = length g"
    and val: "\<forall>v<length g. dists' ! v =
             (if \<not> ps[u := True] ! v \<and> g ! u ! v \<noteq> Fin 0 \<and> dists ! u \<noteq> PInf \<and>
                 lt (add (dists ! u) (g ! u ! v)) (dists ! v)
              then add (dists ! u) (g ! u ! v) else dists ! v)"
    by blast
  let ?ps = "ps[u := True]"
  have first: "\<not> ps ! s \<Longrightarrow> u = s"
  proof (rule ccontr)
    assume a: "\<not> ps ! s" "u \<noteq> s"
    with fresh u have "dists ! u = PInf" by simp
    moreover have "dists ! s \<noteq> NaN" using ds by simp
    with least s a have "le (dists ! u) (dists ! s)" by blast
    ultimately show False using ds by simp
  qed
  have ps_s: "?ps ! s"
  proof (cases "ps ! s")
    case True
    then show ?thesis using lp s u by (simp add: nth_list_update)
  next
    case False
    then show ?thesis using first lp s by simp
  qed
  have c1: "processed_count ?ps = Suc k"
    using count_update[of u ps] u lp unp cnt by simp
  have c2: "dists' ! s = Fin 0" using val s ps_s ds by simp
  have c3: "\<forall>v<length g. dists' ! v = PInf \<or>
         (\<exists>p. is_path g s p \<and> path_end s p = v \<and> path_weight g s p = dists' ! v)"
  proof (intro allI impI)
    fix v assume v: "v < length g"
    show "dists' ! v = PInf \<or>
         (\<exists>p. is_path g s p \<and> path_end s p = v \<and> path_weight g s p = dists' ! v)"
    proof (cases "\<not> ?ps ! v \<and> g ! u ! v \<noteq> Fin 0 \<and> dists ! u \<noteq> PInf \<and>
                 lt (add (dists ! u) (g ! u ! v)) (dists ! v)")
      case True
      then have new: "dists' ! v = add (dists ! u) (g ! u ! v)" using val v by simp
      from True attained u obtain p where
        p: "is_path g s p" "path_end s p = u" "path_weight g s p = dists ! u" by blast
      have "is_path g s (p @ [v])" "path_end s (p @ [v]) = v"
        "path_weight g s (p @ [v]) = dists' ! v"
        using p True v new by (simp_all add: path_snoc path_weight_def)
      then show ?thesis by blast
    next
      case False
      then have "dists' ! v = dists ! v" using val v by auto
      then show ?thesis using attained v by simp
    qed
  qed
  have c4: "\<forall>v<length g. dists' ! v \<noteq> NaN"
  proof (intro allI impI)
    fix v assume v: "v < length g"
    show "dists' ! v \<noteq> NaN"
    proof (cases "lt (add (dists ! u) (g ! u ! v)) (dists ! v)")
      case True
      then have "add (dists ! u) (g ! u ! v) \<noteq> NaN" using cost_lt_not_NaN by blast
      then show ?thesis using val v numbers by simp
    next
      case False
      then show ?thesis using val v numbers by simp
    qed
  qed
  have "basic_inv g s (Suc k) (dists', ?ps)"
    using len lp c1 c2 c3 c4 ps_s by (simp add: basic_inv_def)
  with u unp un sel least run val show ?thesis by blast
qed

lemma dijkstra_step:
  assumes nn: "non_negative g" and sq: "square g"
    and ld: "length dists = length g" and lp: "length ps = length g"
    and inv: "dijkstra_inv g (dists, ps)"
    and u: "u < length g" and unp: "\<not> ps ! u"
    and least': "\<forall>v<length g. \<not> ps ! v \<and> dists ! v \<noteq> NaN \<longrightarrow> le (dists ! u) (dists ! v)"
    and val: "\<forall>v<length g. dists' ! v =
             (if \<not> ps[u := True] ! v \<and> g ! u ! v \<noteq> Fin 0 \<and> dists ! u \<noteq> PInf \<and>
                 lt (add (dists ! u) (g ! u ! v)) (dists ! v)
              then add (dists ! u) (g ! u ! v) else dists ! v)"
  shows "dijkstra_inv g (dists', ps[u := True])"
proof -
  let ?ps = "ps[u := True]"
  from inv have dv: "\<And>v. v < length g \<Longrightarrow> distance_value (dists ! v)"
    and edges: "\<And>a v. a < length g \<Longrightarrow> ps ! a \<Longrightarrow> v < length g \<Longrightarrow> g ! a ! v \<noteq> Fin 0 \<Longrightarrow>
      le (dists ! v) (add (dists ! a) (g ! a ! v))"
    and order: "\<And>a v. a < length g \<Longrightarrow> ps ! a \<Longrightarrow> v < length g \<Longrightarrow> \<not> ps ! v \<Longrightarrow>
      le (dists ! a) (dists ! v)"
    by (simp_all add: dijkstra_inv_def)
  have nan: "\<And>v. v < length g \<Longrightarrow> dists ! v \<noteq> NaN"
    using dv distance_value_not_NaN by blast
  have least: "\<And>v. v < length g \<Longrightarrow> \<not> ps ! v \<Longrightarrow> le (dists ! u) (dists ! v)"
    using least' nan by blast
  have w: "\<And>a v. a < length g \<Longrightarrow> v < length g \<Longrightarrow> le (Fin 0) (g ! a ! v)"
    using nn sq by (simp add: non_negative_entry square_row)
  have up: "\<And>v. v < length g \<Longrightarrow> le (dists ! u) (add (dists ! u) (g ! u ! v))"
    using dv[OF u] w[OF u] by (rule cost_le_add_right)
  have sum: "\<And>v. v < length g \<Longrightarrow> distance_value (add (dists ! u) (g ! u ! v))"
    using dv[OF u] w[OF u] by (rule add_distance_value)
  have upd: "\<And>v. v < length g \<Longrightarrow> ?ps ! v = (v = u \<or> ps ! v)"
    using lp u by (auto simp: nth_list_update)
  have alt: "\<And>v. v < length g \<Longrightarrow>
      dists' ! v = dists ! v \<or>
      (dists' ! v = add (dists ! u) (g ! u ! v) \<and> lt (add (dists ! u) (g ! u ! v)) (dists ! v))"
    using val by (auto split: if_splits)
  have dv': "\<And>v. v < length g \<Longrightarrow> distance_value (dists' ! v)"
    using alt dv sum by metis
  have nan': "\<And>v. v < length g \<Longrightarrow> dists' ! v \<noteq> NaN"
    using dv' distance_value_not_NaN by blast
  have f1: "\<And>v. v < length g \<Longrightarrow> le (dists' ! v) (dists ! v)"
    using alt nan cost_le_refl cost_lt_le by metis
  have f2: "\<And>v. v < length g \<Longrightarrow> ?ps ! v \<Longrightarrow> dists' ! v = dists ! v"
    using val by simp
  have f3: "\<And>v. v < length g \<Longrightarrow> \<not> ?ps ! v \<Longrightarrow> le (dists ! u) (dists' ! v)"
  proof -
    fix v assume v: "v < length g" "\<not> ?ps ! v"
    then have "\<not> ps ! v" using upd by simp
    with least v have a: "le (dists ! u) (dists ! v)" by simp
    from alt[OF v(1)] a up[OF v(1)] show "le (dists ! u) (dists' ! v)" by auto
  qed
  have f4: "\<And>v. v < length g \<Longrightarrow> \<not> ?ps ! v \<Longrightarrow> g ! u ! v \<noteq> Fin 0 \<Longrightarrow>
      le (dists' ! v) (add (dists ! u) (g ! u ! v))"
  proof -
    fix v assume v: "v < length g" "\<not> ?ps ! v" "g ! u ! v \<noteq> Fin 0"
    have sn: "add (dists ! u) (g ! u ! v) \<noteq> NaN"
      using sum[OF v(1)] by (rule distance_value_not_NaN)
    show "le (dists' ! v) (add (dists ! u) (g ! u ! v))"
    proof (cases "dists ! u = PInf")
      case True
      have "le (dists ! u) (add (dists ! u) (g ! u ! v))" using up[OF v(1)] .
      then have "add (dists ! u) (g ! u ! v) = PInf" unfolding True
        by (cases "add PInf (g ! u ! v)") auto
      then show ?thesis using nan'[OF v(1)] by (simp add: cost_le_PInf)
    next
      case False
      show ?thesis
      proof (cases "lt (add (dists ! u) (g ! u ! v)) (dists ! v)")
        case True
        with False v val have "dists' ! v = add (dists ! u) (g ! u ! v)" by simp
        then show ?thesis using sn by (simp add: cost_le_refl)
      next
        case False
        with val v have "dists' ! v = dists ! v" by simp
        moreover from False have "le (dists ! v) (add (dists ! u) (g ! u ! v))"
          using cost_lt_iff[OF sn nan[OF v(1)]] by simp
        ultimately show ?thesis by simp
      qed
    qed
  qed
  have e': "\<forall>a<length g. ?ps ! a \<longrightarrow>
         (\<forall>v<length g. g ! a ! v \<noteq> Fin 0 \<longrightarrow> le (dists' ! v) (add (dists' ! a) (g ! a ! v)))"
  proof (intro allI impI)
    fix a v assume a: "a < length g" "?ps ! a" and v: "v < length g" "g ! a ! v \<noteq> Fin 0"
    have da: "dists' ! a = dists ! a" using f2 a by simp
    show "le (dists' ! v) (add (dists' ! a) (g ! a ! v))"
    proof (cases "a = u")
      case False
      with a upd have "ps ! a" by simp
      from edges[OF a(1) this v] f1[OF v(1)] show ?thesis unfolding da by (rule cost_le_trans[rotated])
    next
      case True
      show ?thesis
      proof (cases "?ps ! v")
        case False
        then show ?thesis using f4 v True da by simp
      next
        case pv: True
        then have dv: "dists' ! v = dists ! v" using f2 v by simp
        show ?thesis
        proof (cases "v = u")
          case True
          then show ?thesis using up[OF u] \<open>a = u\<close> da by simp
        next
          case False
          with pv v upd have "ps ! v" by simp
          from order[OF v(1) this u unp] have "le (dists ! v) (dists ! u)" .
          then have "le (dists ! v) (add (dists ! u) (g ! u ! v))" using up[OF v(1)] by (rule cost_le_trans)
          then show ?thesis using dv da \<open>a = u\<close> by simp
        qed
      qed
    qed
  qed
  have o': "\<forall>a<length g. ?ps ! a \<longrightarrow> (\<forall>v<length g. \<not> ?ps ! v \<longrightarrow> le (dists' ! a) (dists' ! v))"
  proof (intro allI impI)
    fix a v assume a: "a < length g" "?ps ! a" and v: "v < length g" "\<not> ?ps ! v"
    have da: "dists' ! a = dists ! a" using f2 a by simp
    show "le (dists' ! a) (dists' ! v)"
    proof (cases "a = u")
      case True
      then show ?thesis using f3 v da by simp
    next
      case False
      with a upd have "ps ! a" by simp
      from order[OF a(1) this u unp] f3[OF v] show ?thesis unfolding da by (rule cost_le_trans)
    qed
  qed
  from e' o' dv' show ?thesis by (simp add: dijkstra_inv_def)
qed

subsection \<open>The run\<close>

lemma after_iterations_Suc:
  "after_iterations e s (Suc k) = and_then (after_iterations e s k) (main_step e (int k))"
  by (cases "start e s") (simp_all add: after_iterations_def and_then_def)

lemma basic_inv_start:
  assumes "s < length g"
  shows "basic_inv g s 0 ((replicate (length g) PInf)[s := Fin 0], replicate (length g) False)"
proof -
  have "is_path g s [] \<and> path_end s [] = s \<and> path_weight g s [] = Fin 0"
    by (simp add: path_weight_def)
  then have "\<exists>p. is_path g s p \<and> path_end s p = s \<and> path_weight g s p = Fin 0" by blast
  then show ?thesis using assms
    by (auto simp add: basic_inv_def count_replicate nth_list_update)
qed

lemma dijkstra_inv_start:
  "dijkstra_inv g ((replicate (length g) PInf)[s := Fin 0], replicate (length g) False)"
proof -
  have "\<And>v. v < length g \<Longrightarrow> distance_value ((replicate (length g) PInf)[s := Fin 0] ! v)"
  proof -
    fix v assume "v < length g"
    then show "distance_value ((replicate (length g) PInf)[s := Fin 0] ! v)"
      by (cases "v = s") (simp_all add: distance_value_def to_float_zero)
  qed
  then show ?thesis by (simp add: dijkstra_inv_def)
qed

lemma run_inv:
  assumes sq: "square g" and s: "s < length g"
  shows "Suc k \<le> length g \<Longrightarrow>
    \<exists>st. after_iterations (Dijkstra g) (int s) k = Inr st \<and> basic_inv g s k st \<and>
      (non_negative g \<longrightarrow> dijkstra_inv g st)"
proof (induction k)
  case 0
  have "after_iterations (Dijkstra g) (int s) 0 =
      Inr ((replicate (length g) PInf)[s := Fin 0], replicate (length g) False)"
    using s by (simp add: after_iterations_def start_defined and_then_def)
  then show ?case using basic_inv_start[OF s] dijkstra_inv_start by simp
next
  case (Suc k)
  then obtain dists ps where run: "after_iterations (Dijkstra g) (int s) k = Inr (dists, ps)"
    and b: "basic_inv g s k (dists, ps)"
    and d: "non_negative g \<longrightarrow> dijkstra_inv g (dists, ps)"
    by auto
  from Suc.prems have k: "Suc k < length g" by simp
  from basic_step[OF sq s b k, of "int k"] obtain u dists' where u: "u < length g" "\<not> ps ! u"
    and least: "\<forall>v<length g. \<not> ps ! v \<and> dists ! v \<noteq> NaN \<longrightarrow> le (dists ! u) (dists ! v)"
    and step: "main_step (Dijkstra g) (int k) (dists, ps) = Inr (dists', ps[u := True])"
    and val: "\<forall>v<length g. dists' ! v =
             (if \<not> ps[u := True] ! v \<and> g ! u ! v \<noteq> Fin 0 \<and> dists ! u \<noteq> PInf \<and>
                 lt (add (dists ! u) (g ! u ! v)) (dists ! v)
              then add (dists ! u) (g ! u ! v) else dists ! v)"
    and b': "basic_inv g s (Suc k) (dists', ps[u := True])"
    by blast
  from b have len: "length dists = length g" "length ps = length g" by (simp_all add: basic_inv_def)
  have "non_negative g \<longrightarrow> dijkstra_inv g (dists', ps[u := True])"
    using dijkstra_step[OF _ sq len _ u least val] d by blast
  moreover have "after_iterations (Dijkstra g) (int s) (Suc k) = Inr (dists', ps[u := True])"
    using run step by (simp add: after_iterations_Suc and_then_def)
  ultimately show ?case using b' by simp
qed

lemma main_loop_count_Dijkstra: "main_loop_count (Dijkstra g) = length g - 1"
proof -
  have "nat (int (length g) - 1) = length g - 1" by simp
  then show ?thesis by (simp add: main_loop_count_def Dijkstra_def)
qed

lemma from_vertex_after:
  "from_vertex (Dijkstra g) s =
     and_then (after_iterations (Dijkstra g) s (length g - 1)) (\<lambda>st. Inr (fst st))"
  by (simp add: from_vertex_def from_vertex_locals_def main_loop_count_Dijkstra)

lemma all_edges_relaxed:
  assumes nn: "non_negative g" and sq: "square g"
    and b: "basic_inv g s k (dists, ps)" and d: "dijkstra_inv g (dists, ps)"
    and k: "Suc k = length g"
    and a: "a < length g" and v: "v < length g" and e: "g ! a ! v \<noteq> Fin 0"
  shows "le (dists ! v) (add (dists ! a) (g ! a ! v))"
proof -
  from b k have lp: "length ps = length g" and cnt: "Suc (processed_count ps) = length ps"
    by (simp_all add: basic_inv_def)
  have w: "le (Fin 0) (g ! a ! v)"
    using nn sq a v by (simp add: non_negative_entry square_row)
  have "distance_value (dists ! a)" using d a by (simp add: dijkstra_inv_def)
  then have up: "le (dists ! a) (add (dists ! a) (g ! a ! v))" using w by (rule cost_le_add_right)
  show ?thesis
  proof (cases "ps ! a")
    case True
    then show ?thesis using d a v e by (simp add: dijkstra_inv_def)
  next
    case na: False
    show ?thesis
    proof (cases "ps ! v")
      case True
      then have "le (dists ! v) (dists ! a)" using d a v na by (simp add: dijkstra_inv_def)
      then show ?thesis using up by (rule cost_le_trans)
    next
      case False
      then have "v = a" using count_unique[OF cnt] a v na lp by simp
      then show ?thesis using up by simp
    qed
  qed
qed

lemma path_lower_bound:
  assumes edges: "\<And>a v. a < length g \<Longrightarrow> v < length g \<Longrightarrow> g ! a ! v \<noteq> Fin 0 \<Longrightarrow>
      le (dists ! v) (add (dists ! a) (g ! a ! v))"
    and dvs: "\<And>v. v < length g \<Longrightarrow> distance_value (dists ! v)"
    and entries: "\<And>a v. a < length g \<Longrightarrow> v < length g \<Longrightarrow> le (Fin 0) (g ! a ! v)"
  shows "a < length g \<Longrightarrow> is_path g a p \<Longrightarrow> distance_value acc \<Longrightarrow> le (dists ! a) acc \<Longrightarrow>
      le (dists ! (path_end a p)) (accumulate g acc a p)"
proof (induction p arbitrary: a acc)
  case Nil
  then show ?case by simp
next
  case (Cons v p)
  then have v: "v < length g" "g ! a ! v \<noteq> Fin 0" "is_path g v p" by simp_all
  have w: "le (Fin 0) (g ! a ! v)" using entries[OF Cons.prems(1) v(1)] .
  have "le (add (dists ! a) (g ! a ! v)) (add acc (g ! a ! v))"
    using dvs[OF Cons.prems(1)] Cons.prems(3,4) w by (rule cost_add_mono_left)
  with edges[OF Cons.prems(1) v(1,2)] have "le (dists ! v) (add acc (g ! a ! v))"
    by (rule cost_le_trans)
  moreover have "distance_value (add acc (g ! a ! v))"
    using Cons.prems(3) w by (rule add_distance_value)
  ultimately have "le (dists ! (path_end v p)) (accumulate g (add acc (g ! a ! v)) v p)"
    using Cons.IH[OF v(1,3)] by blast
  then show ?case by simp
qed

lemma from_vertex_defined:
  assumes "square g" and "s < length g"
  shows "\<exists>dists ps. after_iterations (Dijkstra g) (int s) (length g - 1) = Inr (dists, ps) \<and>
     basic_inv g s (length g - 1) (dists, ps) \<and> (non_negative g \<longrightarrow> dijkstra_inv g (dists, ps)) \<and>
     from_vertex_locals (Dijkstra g) (int s) = Inr (dists, ps) \<and>
     from_vertex (Dijkstra g) (int s) = Inr dists"
proof -
  have "Suc (length g - 1) \<le> length g" using assms(2) by simp
  from run_inv[OF assms this] obtain dists ps where
    "after_iterations (Dijkstra g) (int s) (length g - 1) = Inr (dists, ps)"
    "basic_inv g s (length g - 1) (dists, ps)" "non_negative g \<longrightarrow> dijkstra_inv g (dists, ps)"
    by auto
  then show ?thesis
    by (simp add: from_vertex_after from_vertex_locals_def main_loop_count_Dijkstra and_then_def)
qed

subsection \<open>The selection as a scan\<close>

lemma scan_select_Suc:
  "scan_select dists ps (Suc j) =
     (if \<not> ps ! j \<and> le (dists ! j) (fst (scan_select dists ps j)) then (dists ! j, Some j)
      else scan_select dists ps j)"
  by (simp add: scan_select_def)

lemma min_loop_scan:
  assumes "length dists = n" "length ps = n"
  shows "j \<le> n \<Longrightarrow> for_range j (min_step dists ps) (PInf, None) =
     Inr (fst (scan_select dists ps j), map_option int (snd (scan_select dists ps j)))"
proof (induction j)
  case 0
  then show ?case by (simp add: scan_select_def)
next
  case (Suc j)
  then show ?case using assms
    by (simp add: scan_select_Suc and_then_def min_step_def vec_get_def)
qed

lemma min_distance_scan:
  assumes "length dists = length g" "length ps = length g"
  shows "min_distance (Dijkstra g) dists ps =
     (case snd (scan_select dists ps (length g)) of None \<Rightarrow> Inl Undefined | Some u \<Rightarrow> Inr (int u))"
  using min_loop_scan[OF assms, of "length g"]
  by (simp add: min_distance_def Dijkstra_def and_then_def split: option.splits)

subsection \<open>The object is given back as it was taken\<close>

lemma for_range_obj:
  assumes "\<And>i s. body_obj i (s, this) = and_then (body i s) (\<lambda>s'. Inr (s', this))"
  shows "for_range n body_obj (s, this) = and_then (for_range n body s) (\<lambda>s'. Inr (s', this))"
proof (induction n)
  case 0
  then show ?case by (simp add: and_then_def)
next
  case (Suc n)
  then show ?case using assms by (cases "for_range n body s") (simp_all add: and_then_def)
qed

lemma min_step_obj:
  "min_step_obj dists ps v (s, this) = and_then (min_step dists ps v s) (\<lambda>s'. Inr (s', this))"
  by (simp add: min_step_obj_def min_step_def and_then_def split: sum.splits)

lemma min_distance_obj:
  "min_distance_obj dists ps this = and_then (min_distance this dists ps) (\<lambda>u. Inr (u, this))"
  unfolding min_distance_obj_def min_distance_def for_range_obj[of "min_step_obj dists ps", OF min_step_obj]
  by (simp add: and_then_def split: sum.splits option.splits)

lemma init_step_obj:
  "init_step_obj i (s, this) = and_then (init_step i s) (\<lambda>s'. Inr (s', this))"
  by (simp add: init_step_obj_def init_step_def and_then_def)

lemma relax_step_obj:
  "relax_step_obj u ps v (s, this) = and_then (relax_step this u ps v s) (\<lambda>s'. Inr (s', this))"
  by (simp add: relax_step_obj_def relax_step_def and_then_def split: sum.splits)

lemma main_step_obj:
  "main_step_obj c (s, this) = and_then (main_step this c s) (\<lambda>s'. Inr (s', this))"
  unfolding main_step_obj_def main_step_def min_distance_obj
  by (simp add: and_then_def for_range_obj[of "relax_step_obj _ _", OF relax_step_obj]
      split: sum.splits)

lemma from_vertex_obj:
  "from_vertex_obj source this = and_then (from_vertex this source) (\<lambda>dists. Inr (dists, this))"
  unfolding from_vertex_obj_def from_vertex_def from_vertex_locals_def after_iterations_def
    start_def main_loop_count_def
    for_range_obj[of init_step_obj, OF init_step_obj]
  by (simp add: and_then_def for_range_obj[of main_step_obj, OF main_step_obj] split: sum.splits)

section \<open>Evaluation on concrete inputs\<close>

lemma and_then_simps:
  "and_then (Inl e) f = Inl e"
  "and_then (Inr x) f = f x"
  by (simp_all add: and_then_def)

lemmas run_simps =
  and_then_simps vec_get_def vec_put_def min_step_def min_distance_def init_step_def start_def
  relax_step_def main_step_def after_iterations_def main_loop_count_def from_vertex_locals_def
  from_vertex_def Dijkstra_def to_float_zero to_float_numeral eval_nat_numeral

lemma detour_graph_run: "from_vertex (Dijkstra detour_graph) 0 = Inr [Fin 0, Fin 5, Fin 2]"
  by (simp add: run_simps detour_graph_def)

lemma rounding_graph_run:
  "from_vertex (Dijkstra rounding_graph) 0 = Inr [Fin 0, Fin 16777216, Fin 16777216]"
  by (simp add: run_simps rounding_graph_def to_float_examples)

lemma overflow_graph_run:
  "from_vertex (Dijkstra overflow_graph) 0 = Inr [Fin 0, Fin (2 ^ 127), PInf]"
proof -
  have "to_float 170141183460469231731687303715884105728 = Fin 170141183460469231731687303715884105728"
    using to_float_examples(2) by simp
  moreover have "to_float 340282366920938463463374607431768211456 = PInf"
    using to_float_examples(3) by simp
  ultimately show ?thesis by (simp add: run_simps overflow_graph_def)
qed

lemma cut_graph_unreachable:
  "u < 3 \<Longrightarrow> is_path cut_graph u p \<Longrightarrow> path_end u p = 2 \<Longrightarrow> u = 2"
proof (induction p arbitrary: u)
  case Nil
  then show ?case by simp
next
  case (Cons v p)
  then have v: "v < 3" "cut_graph ! u ! v \<noteq> Fin 0" "is_path cut_graph v p" "path_end v p = 2"
    by (simp_all add: cut_graph_def)
  from Cons.IH[OF v(1,3,4)] have "v = 2" .
  moreover from Cons.prems(1) have "u = 0 \<or> u = 1 \<or> u = 2" by auto
  ultimately show ?case using v(2) by (auto simp add: cut_graph_def)
qed

text \<open>
  In \<open>rounding_graph\<close> and in \<open>overflow_graph\<close> the only path from 0 to 2 is the one over 1.
\<close>

lemma chain_paths:
  assumes "g = rounding_graph \<or> g = overflow_graph"
  shows "is_path g 0 p \<Longrightarrow> path_end 0 p = 2 \<Longrightarrow> p = [1, 2]"
proof -
  have nz: "\<And>a b. a < 3 \<Longrightarrow> b < 3 \<Longrightarrow> g ! a ! b \<noteq> Fin 0 \<Longrightarrow> (a = 0 \<and> b = 1) \<or> (a = 1 \<and> b = 2)"
  proof -
    fix a b :: nat assume "a < 3" "b < 3" "g ! a ! b \<noteq> Fin 0"
    moreover have "a < 3 \<Longrightarrow> a = 0 \<or> a = 1 \<or> a = 2" "b < 3 \<Longrightarrow> b = 0 \<or> b = 1 \<or> b = 2" by auto
    ultimately show "(a = 0 \<and> b = 1) \<or> (a = 1 \<and> b = 2)"
      using assms by (auto simp add: rounding_graph_def overflow_graph_def)
  qed
  have len: "length g = 3" using assms by (auto simp add: rounding_graph_def overflow_graph_def)
  assume p: "is_path g 0 p" "path_end 0 p = 2"
  then obtain a q where pq: "p = a # q" by (cases p) auto
  with p nz[of 0 a] len have a: "a = 1" "is_path g 1 q" "path_end 1 q = 2" by auto
  then obtain b r where qr: "q = b # r" by (cases q) auto
  with a nz[of 1 b] len have b: "b = 2" "is_path g 2 r" by auto
  have "r = []"
  proof (cases r)
    case Nil then show ?thesis .
  next
    case (Cons c t)
    with b nz[of 2 c] len show ?thesis by auto
  qed
  with pq qr a b show ?thesis by simp
qed

section \<open>The claims\<close>

text \<open>
  C1, as the source has it. For every square matrix with non-negative entries, every source
  in \<open>[0, N)\<close> and every vertex \<open>v\<close>, \<open>from_vertex\<close> returns a vector of length \<open>N\<close> whose
  entry at \<open>v\<close> is the minimum, over the paths from the source to \<open>v\<close> along entries that are
  not zero, of the weight of the path as \<open>float\<close> arithmetic sums it from the source (every sum
  rounded to a float, and \<open>+infinity\<close> from \<open>2^128\<close> on): it is at most that weight of every
  such path, and it is that weight of one of them, or infinity (which it is when there is no
  such path).
\<close>

theorem from_vertex_shortest_paths:
  assumes "square g" and "non_negative g"
    and "0 \<le> source" and "source < int (length g)" and "v < length g"
  shows "\<exists>dists. from_vertex (Dijkstra g) source = Inr dists \<and> length dists = length g \<and>
     (\<forall>p. is_path g (nat source) p \<and> path_end (nat source) p = v \<longrightarrow>
          le (dists ! v) (path_weight g (nat source) p)) \<and>
     (dists ! v = PInf \<or>
      (\<exists>p. is_path g (nat source) p \<and> path_end (nat source) p = v \<and>
           path_weight g (nat source) p = dists ! v))"
proof -
  define s where "s = nat source"
  have s: "s < length g" "source = int s" using assms(3,4) by (simp_all add: s_def)
  then have k: "Suc (length g - 1) = length g" by simp
  from from_vertex_defined[OF assms(1) s(1)] assms(2)
  obtain dists ps where b: "basic_inv g s (length g - 1) (dists, ps)"
    and d: "dijkstra_inv g (dists, ps)"
    and res: "from_vertex (Dijkstra g) (int s) = Inr dists"
    by auto
  have len: "length dists = length g" and ds: "dists ! s = Fin 0" using b by (simp_all add: basic_inv_def)
  have att: "dists ! v = PInf \<or>
      (\<exists>p. is_path g s p \<and> path_end s p = v \<and> path_weight g s p = dists ! v)"
    using b assms(5) by (simp add: basic_inv_def)
  have dvs: "\<And>v. v < length g \<Longrightarrow> distance_value (dists ! v)"
    using d by (simp add: dijkstra_inv_def)
  have entries: "\<And>a v. a < length g \<Longrightarrow> v < length g \<Longrightarrow> le (Fin 0) (g ! a ! v)"
    using assms(1,2) by (simp add: non_negative_entry square_row)
  have low: "\<forall>p. is_path g s p \<and> path_end s p = v \<longrightarrow> le (dists ! v) (path_weight g s p)"
  proof (intro allI impI)
    fix p assume p: "is_path g s p \<and> path_end s p = v"
    have "le (dists ! (path_end s p)) (accumulate g (Fin 0) s p)"
      using all_edges_relaxed[OF assms(2,1) b d k] dvs entries s(1) p ds
      by (intro path_lower_bound) (auto simp add: distance_value_zero)
    then show "le (dists ! v) (path_weight g s p)" using p by (simp add: path_weight_def)
  qed
  have "from_vertex (Dijkstra g) source = Inr dists" using res s(2) by simp
  from this len low att show ?thesis unfolding s_def by blast
qed

theorem from_vertex_shortest_paths_witness:
  "square detour_graph \<and> non_negative detour_graph \<and>
   from_vertex (Dijkstra detour_graph) 0 = Inr [Fin 0, Fin 5, Fin 2] \<and>
   le (Fin 5) (path_weight detour_graph 0 [1]) \<and>
   (\<exists>p. is_path detour_graph 0 p \<and> path_end 0 p = 1 \<and> path_weight detour_graph 0 p = Fin 5)"
proof -
  have h1: "square detour_graph" by (simp add: square_def detour_graph_def)
  have h2: "non_negative detour_graph" by (simp add: non_negative_def detour_graph_def)
  have h3: "(0::int) \<le> 0" "0 < int (length detour_graph)" "1 < length detour_graph"
    by (simp_all add: detour_graph_def)
  from from_vertex_shortest_paths[OF h1 h2 h3] obtain dists where
    res: "from_vertex (Dijkstra detour_graph) 0 = Inr dists"
    and low: "\<forall>p. is_path detour_graph (nat 0) p \<and> path_end (nat 0) p = 1 \<longrightarrow>
          le (dists ! 1) (path_weight detour_graph (nat 0) p)"
    and att: "dists ! 1 = PInf \<or>
      (\<exists>p. is_path detour_graph (nat 0) p \<and> path_end (nat 0) p = 1 \<and>
           path_weight detour_graph (nat 0) p = dists ! 1)"
    by blast
  from res have dists: "dists = [Fin 0, Fin 5, Fin 2]" by (simp add: detour_graph_run)
  have pth: "is_path detour_graph 0 [1] \<and> path_end 0 [1] = 1" by (simp add: detour_graph_def)
  from low have "\<forall>p. is_path detour_graph 0 p \<and> path_end 0 p = 1 \<longrightarrow>
          le (dists ! 1) (path_weight detour_graph 0 p)" by simp
  from this[rule_format, OF pth] have "le (dists ! 1) (path_weight detour_graph 0 [1])" .
  with att dists h1 h2 show ?thesis by (simp add: detour_graph_run)
qed

text \<open>
  C1 as stated fails, where the sum of the edge weights is the sum of the numbers. In
  \<open>rounding_graph\<close> the only path from 0 to 2 has the weights \<open>2^24\<close> and 1, whose sum
  \<open>2^24 + 1\<close> is not a float: \<open>from_vertex\<close> returns \<open>2^24\<close> for vertex 2. In
  \<open>overflow_graph\<close> the path from 0 to 2 has the finite sum \<open>2^128\<close>, and \<open>from_vertex\<close>
  returns infinity for vertex 2, which a path reaches.
\<close>

theorem from_vertex_rounds_the_sums:
  "square rounding_graph \<and> non_negative rounding_graph \<and>
   from_vertex (Dijkstra rounding_graph) 0 = Inr [Fin 0, Fin 16777216, Fin 16777216] \<and>
   is_path rounding_graph 0 [1, 2] \<and> path_end 0 [1, 2] = 2 \<and>
   exact_weight rounding_graph 0 [1, 2] = Fin 16777217 \<and>
   square overflow_graph \<and> non_negative overflow_graph \<and>
   from_vertex (Dijkstra overflow_graph) 0 = Inr [Fin 0, Fin (2 ^ 127), PInf] \<and>
   is_path overflow_graph 0 [1, 2] \<and> path_end 0 [1, 2] = 2 \<and>
   exact_weight overflow_graph 0 [1, 2] = Fin (2 ^ 128)"
  by (simp add: rounding_graph_run overflow_graph_run)
    (simp add: square_def non_negative_def rounding_graph_def overflow_graph_def)

text \<open>
  C2, as the source has it. There is no check of \<open>source\<close> and no OutOfRange condition: for a
  source outside \<open>[0, N)\<close> the initialisation loop runs, and then the unchecked write
  \<open>dist[source] = 0\<close> falls outside the vector, which is undefined behaviour. No result is
  defined.
\<close>

theorem from_vertex_source_outside:
  assumes "source < 0 \<or> int (length g) \<le> source"
  shows "from_vertex (Dijkstra g) source = Inl Undefined"
  using start_undefined[OF assms]
  by (simp add: from_vertex_def from_vertex_locals_def after_iterations_def and_then_def)

theorem from_vertex_source_outside_witness:
  "from_vertex (Dijkstra main_graph) 4 = Inl Undefined \<and>
   from_vertex (Dijkstra main_graph) (- 1) = Inl Undefined"
  using from_vertex_source_outside[of 4 main_graph] from_vertex_source_outside[of "- 1" main_graph]
  by (simp add: main_graph_def)

text \<open>
  C2 as stated fails: on the engine of the one-vertex matrix \<open>[[0]]\<close> the call with source 1
  is undefined, and is not the OutOfRange condition.
\<close>

theorem from_vertex_no_out_of_range:
  "from_vertex (Dijkstra [[Fin 0]]) 1 = Inl Undefined \<and>
   from_vertex (Dijkstra [[Fin 0]]) 1 \<noteq> Inl OutOfRange"
  by (simp add: run_simps)

text \<open>
  C3, as the source has it. The constructor checks nothing: for every matrix, square or not,
  it builds the engine that holds the matrix and its row count.
\<close>

theorem Dijkstra_accepts_every_matrix:
  "size_d (Dijkstra g) = int (length g) \<and> graph_d (Dijkstra g) = g"
  by (simp add: Dijkstra_def)

text \<open>
  C3 as stated fails: the matrix with the single row \<open>[0, 1]\<close> is not square, and the
  constructor builds an engine of size 1 from it.
\<close>

theorem Dijkstra_of_non_square_matrix:
  "\<not> square [[Fin 0, Fin 1]] \<and>
   Dijkstra [[Fin 0, Fin 1]] = \<lparr>size_d = 1, graph_d = [[Fin 0, Fin 1]]\<rparr>"
  by (simp add: square_def Dijkstra_def)

text \<open>
  C4. On vectors of length \<open>N\<close> (as they are in every iteration of the main loop),
  \<open>min_distance\<close> returns what the scan of the specification selects; and the vertex it
  returns is unprocessed, no unprocessed vertex has a smaller distance, and every unprocessed
  vertex with the same distance has an index that is not higher. (A NaN compares with nothing:
  the distance returned is not one, and it is less than or equal to the distance of every
  unprocessed vertex whose distance is not one. On vectors without a NaN this is: less than or
  equal to the distance of every unprocessed vertex.)
\<close>

theorem min_distance_last_minimum:
  assumes "length dists = length g" and "length ps = length g"
  shows "min_distance (Dijkstra g) dists ps =
       (case snd (scan_select dists ps (length g)) of None \<Rightarrow> Inl Undefined | Some u \<Rightarrow> Inr (int u)) \<and>
     (\<forall>i. min_distance (Dijkstra g) dists ps = Inr i \<longrightarrow>
        0 \<le> i \<and> i < int (length g) \<and> \<not> ps ! nat i \<and> dists ! nat i \<noteq> NaN \<and>
        (\<forall>v<length g. \<not> ps ! v \<longrightarrow> \<not> lt (dists ! v) (dists ! nat i)) \<and>
        (\<forall>v<length g. \<not> ps ! v \<and> dists ! v \<noteq> NaN \<longrightarrow> le (dists ! nat i) (dists ! v)) \<and>
        (\<forall>v<length g. \<not> ps ! v \<and> dists ! v = dists ! nat i \<longrightarrow> v \<le> nat i))"
proof (intro conjI allI impI)
  show "min_distance (Dijkstra g) dists ps =
       (case snd (scan_select dists ps (length g)) of None \<Rightarrow> Inl Undefined | Some u \<Rightarrow> Inr (int u))"
    using assms by (rule min_distance_scan)
next
  fix i assume res: "min_distance (Dijkstra g) dists ps = Inr i"
  have "\<exists>v0<length g. \<not> ps ! v0 \<and> dists ! v0 \<noteq> NaN"
  proof (rule ccontr)
    assume "\<not> (\<exists>v0<length g. \<not> ps ! v0 \<and> dists ! v0 \<noteq> NaN)"
    then have "min_distance (Dijkstra g) dists ps = Inl Undefined"
      using min_distance_none[OF assms] by simp
    with res show False by simp
  qed
  then obtain v0 where "v0 < length g" "\<not> ps ! v0" "dists ! v0 \<noteq> NaN" by blast
  from min_distance_spec[OF assms this] res obtain u where u: "u < length g" "i = int u"
    "\<not> ps ! u" "dists ! u \<noteq> NaN"
    "\<forall>v<length g. \<not> ps ! v \<and> dists ! v \<noteq> NaN \<longrightarrow> le (dists ! u) (dists ! v)"
    "\<forall>v. u < v \<and> v < length g \<and> \<not> ps ! v \<and> dists ! v \<noteq> NaN \<longrightarrow> lt (dists ! u) (dists ! v)"
    by auto
  show "0 \<le> i" "i < int (length g)" "\<not> ps ! nat i" "dists ! nat i \<noteq> NaN" using u by simp_all
  show le: "\<And>v. v < length g \<Longrightarrow> \<not> ps ! v \<and> dists ! v \<noteq> NaN \<Longrightarrow> le (dists ! nat i) (dists ! v)"
    using u by simp
  show "\<And>v. v < length g \<Longrightarrow> \<not> ps ! v \<Longrightarrow> \<not> lt (dists ! v) (dists ! nat i)"
  proof
    fix v assume v: "v < length g" "\<not> ps ! v" "lt (dists ! v) (dists ! nat i)"
    then have n: "dists ! v \<noteq> NaN" "dists ! nat i \<noteq> NaN" using cost_lt_not_NaN by blast+
    with le[OF v(1)] v(2) have "le (dists ! nat i) (dists ! v)" by simp
    with v(3) n show False by (simp add: cost_lt_iff)
  qed
  show "\<And>v. v < length g \<Longrightarrow> \<not> ps ! v \<and> dists ! v = dists ! nat i \<Longrightarrow> v \<le> nat i"
  proof (rule ccontr)
    fix v assume v: "v < length g" "\<not> ps ! v \<and> dists ! v = dists ! nat i" "\<not> v \<le> nat i"
    then have uv: "u < v" using u(2) by simp
    have eq: "dists ! v = dists ! u" using v u(2) by simp
    then have "dists ! v \<noteq> NaN" using u(4) by simp
    with u(6) uv v have "lt (dists ! u) (dists ! v)" by blast
    then have "lt (dists ! u) (dists ! u)" unfolding eq .
    then show False by (simp add: cost_lt_irrefl)
  qed
qed

theorem min_distance_last_minimum_witness:
  "min_distance (Dijkstra main_graph) [Fin 3, Fin 1, Fin 1, Fin 1] [False, False, True, False] = Inr 3 \<and>
   snd (scan_select [Fin 3, Fin 1, Fin 1, Fin 1] [False, False, True, False] 4) = Some 3 \<and>
   le ([Fin 3, Fin 1, Fin 1, Fin 1] ! 3) ([Fin 3, Fin 1, Fin 1, Fin 1] ! 0) \<and>
   [Fin 3, Fin 1, Fin 1, Fin 1] ! 1 = [Fin 3, Fin 1, Fin 1, Fin 1] ! 3 \<and> (1::nat) \<le> 3"
proof -
  have h: "length [Fin 3, Fin 1, Fin 1, Fin 1] = length main_graph"
    "length [False, False, True, False] = length main_graph"
    by (simp_all add: main_graph_def)
  have scan: "snd (scan_select [Fin 3, Fin 1, Fin 1, Fin 1] [False, False, True, False] 4) = Some 3"
    by (simp add: scan_select_def upt_rec)
  have "length main_graph = 4" by (simp add: main_graph_def)
  with min_distance_last_minimum[OF h] scan show ?thesis by simp
qed

text \<open>
  C5. On a square matrix, the relaxation of \<open>w\<close> from \<open>u\<close> leaves the distances as they are
  when the entry from \<open>u\<close> to \<open>w\<close> is zero. So for a valid source and a vertex \<open>v\<close> that no
  path along entries that are not zero reaches from the source, the entry at \<open>v\<close> is infinity
  after every number of iterations and in the vector that \<open>from_vertex\<close> returns.
\<close>

theorem zero_entry_never_relaxed:
  assumes "square g" and "0 \<le> source" and "source < int (length g)" and "v < length g"
    and "\<forall>p. is_path g (nat source) p \<longrightarrow> path_end (nat source) p \<noteq> v"
  shows "(\<forall>u w ps dists. u < length g \<and> w < length g \<and> g ! u ! w = Fin 0 \<and> length ps = length g \<longrightarrow>
           relax_step (Dijkstra g) (int u) ps (int w) dists = Inr dists) \<and>
         (\<forall>k. Suc k \<le> length g \<longrightarrow>
           (\<exists>dists ps. after_iterations (Dijkstra g) source k = Inr (dists, ps) \<and> dists ! v = PInf)) \<and>
         (\<exists>dists. from_vertex (Dijkstra g) source = Inr dists \<and> dists ! v = PInf)"
proof (intro conjI allI impI)
  fix u w :: nat and ps :: "bool list" and dists :: "cost list"
  assume a: "u < length g \<and> w < length g \<and> g ! u ! w = Fin 0 \<and> length ps = length g"
  then have "length (g ! u) = length g" using assms(1) by (simp add: square_row)
  then show "relax_step (Dijkstra g) (int u) ps (int w) dists = Inr dists"
    using a by (simp add: relax_step_def Dijkstra_def and_then_def vec_get_def)
next
  fix k assume k: "Suc k \<le> length g"
  define s where "s = nat source"
  have s: "s < length g" "source = int s" using assms(2,3) by (simp_all add: s_def)
  from run_inv[OF assms(1) s(1) k] obtain dists ps where
    run: "after_iterations (Dijkstra g) (int s) k = Inr (dists, ps)"
    and b: "basic_inv g s k (dists, ps)" by auto
  from b assms(4,5) have "dists ! v = PInf" unfolding s_def basic_inv_def by auto
  with run s(2) show "\<exists>dists ps. after_iterations (Dijkstra g) source k = Inr (dists, ps) \<and> dists ! v = PInf"
    by simp
next
  define s where "s = nat source"
  have s: "s < length g" "source = int s" using assms(2,3) by (simp_all add: s_def)
  from from_vertex_defined[OF assms(1) s(1)] obtain dists ps where
    b: "basic_inv g s (length g - 1) (dists, ps)"
    and res: "from_vertex (Dijkstra g) (int s) = Inr dists" by auto
  from b assms(4,5) have "dists ! v = PInf" unfolding s_def basic_inv_def by auto
  with res s(2) show "\<exists>dists. from_vertex (Dijkstra g) source = Inr dists \<and> dists ! v = PInf"
    by simp
qed

theorem zero_entry_never_relaxed_witness:
  "square cut_graph \<and>
   relax_step (Dijkstra cut_graph) 1 [True, True, False] 2 [Fin 0, Fin 5, PInf] = Inr [Fin 0, Fin 5, PInf] \<and>
   (\<exists>dists. from_vertex (Dijkstra cut_graph) 0 = Inr dists \<and> dists ! 2 = PInf)"
proof -
  have h1: "square cut_graph" by (simp add: square_def cut_graph_def)
  have h2: "(0::int) \<le> 0" "0 < int (length cut_graph)" "2 < length cut_graph"
    by (simp_all add: cut_graph_def)
  have h3: "\<forall>p. is_path cut_graph (nat 0) p \<longrightarrow> path_end (nat 0) p \<noteq> 2"
    using cut_graph_unreachable[of 0] by auto
  have e: "(1::nat) < length cut_graph \<and> 2 < length cut_graph \<and> cut_graph ! 1 ! 2 = Fin 0 \<and>
      length [True, True, False] = length cut_graph"
    by (simp add: cut_graph_def)
  from zero_entry_never_relaxed[OF h1 h2 h3] e
  have "relax_step (Dijkstra cut_graph) (int 1) [True, True, False] (int 2) [Fin 0, Fin 5, PInf] =
      Inr [Fin 0, Fin 5, PInf]"
    and "\<exists>dists. from_vertex (Dijkstra cut_graph) 0 = Inr dists \<and> dists ! 2 = PInf"
    by blast+
  with h1 show ?thesis by simp
qed

text \<open>
  C6, as the source has it. On the engine of a one-vertex matrix, \<open>from_vertex\<close> with source
  0 returns the vector \<open>[0]\<close>. On the engine of the empty matrix no source is in range: both
  loops make no iteration, and the unchecked write \<open>dist[source] = 0\<close> falls outside the
  empty vector for every source; the call is undefined and returns no vector.
\<close>

theorem from_vertex_smallest_engines:
  "from_vertex (Dijkstra [[x]]) 0 = Inr [Fin 0] \<and>
   from_vertex (Dijkstra []) source = Inl Undefined"
  by (simp add: run_simps)

text \<open>C6 as stated fails: on the empty matrix the call with source 0 is not the empty vector.\<close>

theorem from_vertex_empty_matrix:
  "from_vertex (Dijkstra []) 0 = Inl Undefined \<and> from_vertex (Dijkstra []) 0 \<noteq> Inr []"
  by (simp add: run_simps)

text \<open>
  C7. For every square matrix with non-negative entries and every valid source \<open>s\<close>, the
  distance vector has 0 at \<open>s\<close> after the initialisation and after each iteration of the
  main loop, no step of a relaxation loop changes it (the vector after the first \<open>j\<close>
  relaxations of an iteration has 0 at \<open>s\<close>, for every \<open>j\<close>), and the returned vector has 0 at
  \<open>s\<close>. (The proof makes no use of the weights being non-negative.)
\<close>

theorem source_distance_stays_zero:
  assumes "square g" and "non_negative g" and "0 \<le> source" and "source < int (length g)"
  shows "(\<forall>k. Suc k \<le> length g \<longrightarrow>
           (\<exists>dists ps. after_iterations (Dijkstra g) source k = Inr (dists, ps) \<and>
              dists ! nat source = Fin 0)) \<and>
         (\<forall>k j dists ps u ps'. Suc (Suc k) \<le> length g \<and> j \<le> length g \<and>
              after_iterations (Dijkstra g) source k = Inr (dists, ps) \<and>
              min_distance (Dijkstra g) dists ps = Inr u \<and> vec_put ps u True = Inr ps' \<longrightarrow>
           (\<exists>dists'. for_range j (relax_step (Dijkstra g) u ps') dists = Inr dists' \<and>
              dists' ! nat source = Fin 0)) \<and>
         (\<exists>dists. from_vertex (Dijkstra g) source = Inr dists \<and> dists ! nat source = Fin 0)"
proof -
  define s where "s = nat source"
  have s: "s < length g" "source = int s" using assms(3,4) by (simp_all add: s_def)
  have p1: "\<forall>k. Suc k \<le> length g \<longrightarrow>
           (\<exists>dists ps. after_iterations (Dijkstra g) (int s) k = Inr (dists, ps) \<and> dists ! s = Fin 0)"
  proof (intro allI impI)
    fix k assume k: "Suc k \<le> length g"
    from run_inv[OF assms(1) s(1) k] obtain dists ps where
      "after_iterations (Dijkstra g) (int s) k = Inr (dists, ps)" "basic_inv g s k (dists, ps)" by auto
    then show "\<exists>dists ps. after_iterations (Dijkstra g) (int s) k = Inr (dists, ps) \<and> dists ! s = Fin 0"
      by (simp add: basic_inv_def)
  qed
  have p2: "\<forall>k j dists ps u ps'. Suc (Suc k) \<le> length g \<and> j \<le> length g \<and>
              after_iterations (Dijkstra g) (int s) k = Inr (dists, ps) \<and>
              min_distance (Dijkstra g) dists ps = Inr u \<and> vec_put ps u True = Inr ps' \<longrightarrow>
           (\<exists>dists'. for_range j (relax_step (Dijkstra g) u ps') dists = Inr dists' \<and> dists' ! s = Fin 0)"
  proof (intro allI impI)
    fix k j dists ps u ps'
    assume a: "Suc (Suc k) \<le> length g \<and> j \<le> length g \<and>
              after_iterations (Dijkstra g) (int s) k = Inr (dists, ps) \<and>
              min_distance (Dijkstra g) dists ps = Inr u \<and> vec_put ps u True = Inr ps'"
    then have k: "Suc k \<le> length g" "Suc k < length g" and j: "j \<le> length g" by simp_all
    from run_inv[OF assms(1) s(1) k(1)] a have b: "basic_inv g s k (dists, ps)" by auto
    from b have ld: "length dists = length g" and lp: "length ps = length g"
      and ds: "dists ! s = Fin 0" by (simp_all add: basic_inv_def)
    from basic_step[OF assms(1) s(1) b k(2), of 0] obtain n d1 where n: "n < length g"
      and sel: "min_distance (Dijkstra g) dists ps = Inr (int n)"
      and b': "basic_inv g s (Suc k) (d1, ps[n := True])"
      by blast
    from sel a have u: "u = int n" by simp
    have ps': "ps' = ps[n := True]" using a u n lp by (simp add: vec_put_def)
    have pn: "ps' ! n" using ps' n lp by simp
    have pss: "ps' ! s" using b' ps' by (simp add: basic_inv_def)
    have lps: "length ps' = length g" using ps' lp by simp
    from relax_loop[OF assms(1) n pn ld lps j] obtain dists' where
      run: "for_range j (relax_step (Dijkstra g) (int n) ps') dists = Inr dists'"
      and val: "\<forall>v<length g. dists' ! v =
         (if v < j \<and> \<not> ps' ! v \<and> g ! n ! v \<noteq> Fin 0 \<and> dists ! n \<noteq> PInf \<and>
             lt (add (dists ! n) (g ! n ! v)) (dists ! v)
          then add (dists ! n) (g ! n ! v) else dists ! v)"
      by blast
    from val s(1) pss ds have "dists' ! s = Fin 0" by simp
    with run u show "\<exists>dists'. for_range j (relax_step (Dijkstra g) u ps') dists = Inr dists' \<and> dists' ! s = Fin 0"
      by simp
  qed
  have p3: "\<exists>dists. from_vertex (Dijkstra g) (int s) = Inr dists \<and> dists ! s = Fin 0"
    using from_vertex_defined[OF assms(1) s(1)] by (auto simp add: basic_inv_def)
  from p1 p2 p3 show ?thesis unfolding s(2) by simp
qed

theorem source_distance_stays_zero_witness:
  "square detour_graph \<and> non_negative detour_graph \<and>
   (\<exists>dists ps. after_iterations (Dijkstra detour_graph) 2 1 = Inr (dists, ps) \<and> dists ! 2 = Fin 0) \<and>
   (\<exists>dists. from_vertex (Dijkstra detour_graph) 2 = Inr dists \<and> dists ! 2 = Fin 0)"
proof -
  have h1: "square detour_graph" by (simp add: square_def detour_graph_def)
  have h2: "non_negative detour_graph" by (simp add: non_negative_def detour_graph_def)
  have h3: "(0::int) \<le> 2" "2 < int (length detour_graph)" by (simp_all add: detour_graph_def)
  have k: "Suc 1 \<le> length detour_graph" by (simp add: detour_graph_def)
  from source_distance_stays_zero[OF h1 h2 h3] k
  have "\<exists>dists ps. after_iterations (Dijkstra detour_graph) 2 1 = Inr (dists, ps) \<and> dists ! nat 2 = Fin 0"
    and "\<exists>dists. from_vertex (Dijkstra detour_graph) 2 = Inr dists \<and> dists ! nat 2 = Fin 0"
    by blast+
  with h1 h2 show ?thesis by simp
qed

text \<open>
  C8. For every engine of a square matrix and every valid source, the call, with the object
  made explicit, is defined (every write is inside the local vector it names), and it
  returns a vector of length \<open>N\<close> (the vector of \<open>from_vertex\<close>) and the object as it was:
  the same matrix and the same size. Consequently a second call on the object that the first
  has left returns the same vector, and leaves the same object.
\<close>

theorem from_vertex_keeps_the_engine:
  assumes "square g" and "0 \<le> source" and "source < int (length g)"
  shows "\<exists>dists this'. from_vertex_obj source (Dijkstra g) = Inr (dists, this') \<and>
           graph_d this' = g \<and> size_d this' = int (length g) \<and> this' = Dijkstra g \<and>
           length dists = length g \<and> from_vertex (Dijkstra g) source = Inr dists \<and>
           from_vertex_obj source this' = Inr (dists, this')"
proof -
  have s: "nat source < length g" "int (nat source) = source" using assms(2,3) by simp_all
  from from_vertex_defined[OF assms(1) s(1)] obtain dists ps where
    "basic_inv g (nat source) (length g - 1) (dists, ps)"
    "from_vertex (Dijkstra g) source = Inr dists" unfolding s(2) by blast
  then have "from_vertex_obj source (Dijkstra g) = Inr (dists, Dijkstra g)" "length dists = length g"
    "from_vertex (Dijkstra g) source = Inr dists"
    by (simp_all add: from_vertex_obj and_then_def basic_inv_def)
  then show ?thesis by (simp add: Dijkstra_def)
qed

theorem from_vertex_keeps_the_engine_witness:
  "square main_graph \<and>
   (\<exists>dists this'. from_vertex_obj 0 (Dijkstra main_graph) = Inr (dists, this') \<and>
      graph_d this' = main_graph \<and> size_d this' = int (length main_graph) \<and>
      this' = Dijkstra main_graph \<and> length dists = length main_graph \<and>
      from_vertex (Dijkstra main_graph) 0 = Inr dists \<and>
      from_vertex_obj 0 this' = Inr (dists, this'))"
proof -
  have h1: "square main_graph" by (simp add: square_def main_graph_def)
  have h2: "(0::int) \<le> 0" "0 < int (length main_graph)" by (simp_all add: main_graph_def)
  from from_vertex_keeps_the_engine[OF h1 h2] h1 show ?thesis by simp
qed

text \<open>
  C9. On the matrix of \<open>main\<close>, \<open>from_vertex\<close> with source 0 returns the vector
  \<open>[0, -1, -2, 0]\<close>.
\<close>

theorem main_graph_distances:
  "from_vertex (Dijkstra main_graph) 0 = Inr [Fin 0, Fin (- 1), Fin (- 2), Fin 0]"
  by (simp add: run_simps main_graph_def)

text \<open>
  C10. For every engine of a square matrix with \<open>N \<ge> 1\<close> rows and every valid source, the
  main loop of \<open>from_vertex\<close> makes \<open>N - 1\<close> iterations. Before each of them, as many
  vertices are processed as iterations are done, some vertex is unprocessed and its distance
  is less than or equal to infinity (it is not a NaN, whatever the matrix holds), and
  \<open>min_distance\<close> returns an index in \<open>[0, N)\<close> of an unprocessed vertex (it does not read
  an unassigned \<open>min_index\<close>). So \<open>from_vertex\<close> returns, and at its \<open>return\<close> exactly
  \<open>N - 1\<close> vertices are marked processed.
\<close>

theorem selection_always_defined:
  assumes "square g" and "0 \<le> source" and "source < int (length g)"
  shows "main_loop_count (Dijkstra g) = length g - 1 \<and>
         (\<forall>k<main_loop_count (Dijkstra g).
           (\<exists>dists ps u. after_iterations (Dijkstra g) source k = Inr (dists, ps) \<and>
              length ps = length g \<and> processed_count ps = k \<and>
              (\<exists>v<length g. \<not> ps ! v \<and> le (dists ! v) PInf) \<and>
              min_distance (Dijkstra g) dists ps = Inr (int u) \<and> u < length g \<and> \<not> ps ! u)) \<and>
         (\<exists>dists ps. from_vertex_locals (Dijkstra g) source = Inr (dists, ps) \<and>
              length ps = length g \<and> processed_count ps = length g - 1 \<and>
              from_vertex (Dijkstra g) source = Inr dists)"
proof -
  define s where "s = nat source"
  have s: "s < length g" "source = int s" using assms(2,3) by (simp_all add: s_def)
  have p1: "\<forall>k<length g - 1.
           (\<exists>dists ps u. after_iterations (Dijkstra g) (int s) k = Inr (dists, ps) \<and>
              length ps = length g \<and> processed_count ps = k \<and>
              (\<exists>v<length g. \<not> ps ! v \<and> le (dists ! v) PInf) \<and>
              min_distance (Dijkstra g) dists ps = Inr (int u) \<and> u < length g \<and> \<not> ps ! u)"
  proof (intro allI impI)
    fix k assume "k < length g - 1"
    then have k: "Suc k < length g" by simp
    then have "Suc k \<le> length g" by simp
    from run_inv[OF assms(1) s(1) this] obtain dists ps where
      run: "after_iterations (Dijkstra g) (int s) k = Inr (dists, ps)"
      and b: "basic_inv g s k (dists, ps)" by auto
    from basic_step[OF assms(1) s(1) b k, of 0] obtain u where u: "u < length g" "\<not> ps ! u"
      "dists ! u \<noteq> NaN" "min_distance (Dijkstra g) dists ps = Inr (int u)" by blast
    have "\<exists>v<length g. \<not> ps ! v \<and> le (dists ! v) PInf" using u by (auto simp add: cost_le_PInf)
    with run b u show "\<exists>dists ps u. after_iterations (Dijkstra g) (int s) k = Inr (dists, ps) \<and>
              length ps = length g \<and> processed_count ps = k \<and>
              (\<exists>v<length g. \<not> ps ! v \<and> le (dists ! v) PInf) \<and>
              min_distance (Dijkstra g) dists ps = Inr (int u) \<and> u < length g \<and> \<not> ps ! u"
      by (auto simp add: basic_inv_def)
  qed
  have p2: "\<exists>dists ps. from_vertex_locals (Dijkstra g) (int s) = Inr (dists, ps) \<and>
              length ps = length g \<and> processed_count ps = length g - 1 \<and>
              from_vertex (Dijkstra g) (int s) = Inr dists"
    using from_vertex_defined[OF assms(1) s(1)] by (auto simp add: basic_inv_def)
  from p1 p2 show ?thesis unfolding s(2) main_loop_count_Dijkstra by simp
qed

theorem selection_always_defined_witness:
  "square main_graph \<and> main_loop_count (Dijkstra main_graph) = 3 \<and>
   (\<exists>dists ps u. after_iterations (Dijkstra main_graph) 0 2 = Inr (dists, ps) \<and>
      length ps = length main_graph \<and> processed_count ps = 2 \<and>
      (\<exists>v<length main_graph. \<not> ps ! v \<and> le (dists ! v) PInf) \<and>
      min_distance (Dijkstra main_graph) dists ps = Inr (int u) \<and> u < length main_graph \<and> \<not> ps ! u) \<and>
   (\<exists>dists ps. from_vertex_locals (Dijkstra main_graph) 0 = Inr (dists, ps) \<and>
      length ps = length main_graph \<and> processed_count ps = length main_graph - 1 \<and>
      from_vertex (Dijkstra main_graph) 0 = Inr dists)"
proof -
  have h1: "square main_graph" by (simp add: square_def main_graph_def)
  have h2: "(0::int) \<le> 0" "0 < int (length main_graph)" by (simp_all add: main_graph_def)
  have k: "main_loop_count (Dijkstra main_graph) = 3"
    by (simp add: main_loop_count_def Dijkstra_def main_graph_def)
  from selection_always_defined[OF h1 h2] have
    a: "\<forall>k<main_loop_count (Dijkstra main_graph).
           (\<exists>dists ps u. after_iterations (Dijkstra main_graph) 0 k = Inr (dists, ps) \<and>
              length ps = length main_graph \<and> processed_count ps = k \<and>
              (\<exists>v<length main_graph. \<not> ps ! v \<and> le (dists ! v) PInf) \<and>
              min_distance (Dijkstra main_graph) dists ps = Inr (int u) \<and> u < length main_graph \<and> \<not> ps ! u)"
    and b: "\<exists>dists ps. from_vertex_locals (Dijkstra main_graph) 0 = Inr (dists, ps) \<and>
      length ps = length main_graph \<and> processed_count ps = length main_graph - 1 \<and>
      from_vertex (Dijkstra main_graph) 0 = Inr dists"
    by blast+
  from a k have "\<exists>dists ps u. after_iterations (Dijkstra main_graph) 0 2 = Inr (dists, ps) \<and>
      length ps = length main_graph \<and> processed_count ps = 2 \<and>
      (\<exists>v<length main_graph. \<not> ps ! v \<and> le (dists ! v) PInf) \<and>
      min_distance (Dijkstra main_graph) dists ps = Inr (int u) \<and> u < length main_graph \<and> \<not> ps ! u"
    by simp
  with h1 k b show ?thesis by blast
qed

end
